theory Spec2Isabelle
  imports Main "HOL-Library.Word"
begin

unbundle bit_operations_syntax

section \<open>Machine types\<close>

type_synonym byte = "8 word"
type_synonym u32 = "32 word"
type_synonym u64 = "64 word"

section \<open>SHA-256 (sw/lib/source/crypto.c)\<close>

text \<open>
  The round constants \<open>k[64]\<close>, row by row as the C array lists them, and the
  initial hash value \<open>h[8]\<close>.
\<close>

definition k :: "u32 list" where
  "k =
    [0x428a2f98,0x71374491,0xb5c0fbcf,0xe9b5dba5,0x3956c25b,0x59f111f1,0x923f82a4,0xab1c5ed5] @
    [0xd807aa98,0x12835b01,0x243185be,0x550c7dc3,0x72be5d74,0x80deb1fe,0x9bdc06a7,0xc19bf174] @
    [0xe49b69c1,0xefbe4786,0x0fc19dc6,0x240ca1cc,0x2de92c6f,0x4a7484aa,0x5cb0a9dc,0x76f988da] @
    [0x983e5152,0xa831c66d,0xb00327c8,0xbf597fc7,0xc6e00bf3,0xd5a79147,0x06ca6351,0x14292967] @
    [0x27b70a85,0x2e1b2138,0x4d2c6dfc,0x53380d13,0x650a7354,0x766a0abb,0x81c2c92e,0x92722c85] @
    [0xa2bfe8a1,0xa81a664b,0xc24b8b70,0xc76c51a3,0xd192e819,0xd6990624,0xf40e3585,0x106aa070] @
    [0x19a4c116,0x1e376c08,0x2748774c,0x34b0bcb5,0x391c0cb3,0x4ed8aa4a,0x5b9cca4f,0x682e6ff3] @
    [0x748f82ee,0x78a5636f,0x84c87814,0x8cc70208,0x90befffa,0xa4506ceb,0xbef9a3f7,0xc67178f2]"

definition h_init :: "u32 list" where
  "h_init = [0x6a09e667,0xbb67ae85,0x3c6ef372,0xa54ff53a,
             0x510e527f,0x9b05688c,0x1f83d9ab,0x5be0cd19]"

text \<open>The macros of crypto.c, on \<open>uint32_t\<close>.\<close>

definition ROTR :: "u32 \<Rightarrow> nat \<Rightarrow> u32" where
  "ROTR x n = drop_bit n x OR push_bit (32 - n) x"

definition SHR :: "u32 \<Rightarrow> nat \<Rightarrow> u32" where
  "SHR x n = drop_bit n x"

definition CH :: "u32 \<Rightarrow> u32 \<Rightarrow> u32 \<Rightarrow> u32" where
  "CH x y z = (x AND y) XOR (NOT x AND z)"

definition MAJ :: "u32 \<Rightarrow> u32 \<Rightarrow> u32 \<Rightarrow> u32" where
  "MAJ x y z = (x AND y) XOR (x AND z) XOR (y AND z)"

definition BSIG0 :: "u32 \<Rightarrow> u32" where
  "BSIG0 x = ROTR x 2 XOR ROTR x 13 XOR ROTR x 22"

definition BSIG1 :: "u32 \<Rightarrow> u32" where
  "BSIG1 x = ROTR x 6 XOR ROTR x 11 XOR ROTR x 25"

definition SSIG0 :: "u32 \<Rightarrow> u32" where
  "SSIG0 x = ROTR x 7 XOR ROTR x 18 XOR SHR x 3"

definition SSIG1 :: "u32 \<Rightarrow> u32" where
  "SSIG1 x = ROTR x 17 XOR ROTR x 19 XOR SHR x 10"

text \<open>
  \<open>(p[j] << 24) | (p[j+1] << 16) | (p[j+2] << 8) | p[j+3]\<close>, stored into a
  \<open>uint32_t\<close>: the big-endian word at byte index \<open>j\<close> of the array \<open>p\<close>.
\<close>

definition load_be :: "byte list \<Rightarrow> nat \<Rightarrow> u32" where
  "load_be p j =
     push_bit 24 (ucast (p ! j)) OR push_bit 16 (ucast (p ! (j + 1))) OR
     push_bit 8 (ucast (p ! (j + 2))) OR ucast (p ! (j + 3))"

text \<open>
  The message schedule: \<open>for (i = 0; i < 16; i++) w[i] = ...\<close> reads sixteen words at
  \<open>p + off\<close>, and \<open>for (i = 16; i < 64; i++)\<close> derives the other 48.
\<close>

definition w_load :: "byte list \<Rightarrow> nat \<Rightarrow> u32 list" where
  "w_load p off = map (\<lambda>i. load_be p (off + 4 * i)) [0..<16]"

definition w_step :: "u32 list \<Rightarrow> nat \<Rightarrow> u32 list" where
  "w_step w i = w @ [SSIG1 (w ! (i - 2)) + w ! (i - 7) + SSIG0 (w ! (i - 15)) + w ! (i - 16)]"

definition schedule :: "byte list \<Rightarrow> nat \<Rightarrow> u32 list" where
  "schedule p off = foldl w_step (w_load p off) [16..<64]"

text \<open>
  One of the 64 rounds on the working variables \<open>a, b, c, d, e, f, g, h_\<close> (\<open>hh\<close> here), and the
  whole compression of one block into the hash value \<open>h\<close>. crypto.c has this block of
  code three times, character for character (full blocks, the first padding block, the
  last block); the model has it once.
\<close>

type_synonym vars = "u32 \<times> u32 \<times> u32 \<times> u32 \<times> u32 \<times> u32 \<times> u32 \<times> u32"

fun round_step :: "u32 list \<Rightarrow> vars \<Rightarrow> nat \<Rightarrow> vars" where
  "round_step w (a, b, c, d, e, f, g, hh) i =
     (let t1 = hh + BSIG1 e + CH e f g + k ! i + w ! i;
          t2 = BSIG0 a + MAJ a b c
      in (t1 + t2, a, b, c, d + t1, e, f, g))"

definition compress :: "u32 list \<Rightarrow> byte list \<Rightarrow> nat \<Rightarrow> u32 list" where
  "compress h p off =
     (let w = schedule p off;
          (a, b, c, d, e, f, g, hh) =
             foldl (round_step w)
               (h ! 0, h ! 1, h ! 2, h ! 3, h ! 4, h ! 5, h ! 6, h ! 7) [0..<64]
      in [h ! 0 + a, h ! 1 + b, h ! 2 + c, h ! 3 + d,
          h ! 4 + e, h ! 5 + f, h ! 6 + g, h ! 7 + hh])"

text \<open>
  \<open>while (offset + 64 <= len)\<close>: the full blocks of the data. Beside the hash value and
  the offset, the model returns the list of the 64-byte blocks it compressed (a ghost
  value: the C code does not build it), which the padding property is stated on.
\<close>

function full_blocks ::
  "byte list \<Rightarrow> u32 list \<Rightarrow> nat \<Rightarrow> byte list list \<Rightarrow> u32 list \<times> nat \<times> byte list list" where
  "full_blocks data h offset tr =
     (if offset + 64 \<le> length data
      then full_blocks data (compress h data offset) (offset + 64)
             (tr @ [take 64 (drop offset data)])
      else (h, offset, tr))"
  by pat_completeness auto
termination
  by (relation "measure (\<lambda>(data, h, offset, tr). length data - offset)") auto

declare full_blocks.simps [simp del]

text \<open>
  The last eight bytes of the final block: \<open>bits = ((uint64_t)len) * 8\<close>, stored with
  the most significant byte at \<open>buf[56]\<close>.
\<close>

definition store_bits :: "byte list \<Rightarrow> u64 \<Rightarrow> byte list" where
  "store_bits buf bits =
     buf[56 := ucast (drop_bit 56 bits), 57 := ucast (drop_bit 48 bits),
         58 := ucast (drop_bit 40 bits), 59 := ucast (drop_bit 32 bits),
         60 := ucast (drop_bit 24 bits), 61 := ucast (drop_bit 16 bits),
         62 := ucast (drop_bit 8 bits), 63 := ucast bits]"

text \<open>
  The \<open>for\<close> loop at the head of the \<open>rem >= 56\<close> branch reads each big-endian word of
  \<open>buf\<close> and stores its four bytes back at the same places.
\<close>

definition store_be :: "byte list \<Rightarrow> nat \<Rightarrow> u32 \<Rightarrow> byte list" where
  "store_be buf j w =
     buf[j := ucast (drop_bit 24 w), j + 1 := ucast (drop_bit 16 w),
         j + 2 := ucast (drop_bit 8 w), j + 3 := ucast w]"

definition rewrite_words :: "byte list \<Rightarrow> byte list" where
  "rewrite_words buf = foldl (\<lambda>b i. store_be b (4 * i) (load_be b (4 * i))) buf [0..<16]"

text \<open>
  \<open>sha256\<close>. \<open>buf\<close> is declared with 128 bytes, of which the code touches the first 64
  only (\<open>rem\<close> is below 64); the model keeps those 64. The result is the digest
  \<open>out_digest[0..7]\<close> and the ghost list of compressed blocks.
\<close>

definition sha256_run :: "byte list \<Rightarrow> u32 list \<times> byte list list" where
  "sha256_run data =
     (let len = length data;
          (h, offset, tr) = full_blocks data h_init 0 [];
          rem = len - offset;
          buf = replicate 64 0;
          buf = (if rem \<noteq> 0 then take rem (drop offset data) @ drop rem buf else buf);
          buf = buf[rem := 0x80];
          (h, buf, tr) =
            (if rem \<ge> 56
             then (let buf = rewrite_words buf
                   in (compress h buf 0, replicate 64 0, tr @ [buf]))
             else (h, buf, tr));
          bits = (of_nat len :: u64) * 8;
          buf = store_bits buf bits
      in (compress h buf 0, tr @ [buf]))"

definition sha256 :: "byte list \<Rightarrow> u32 list" where
  "sha256 data = fst (sha256_run data)"


section \<open>Files, streams and text (the C library, as image_gen.c uses it)\<close>

text \<open>
  A file system maps a path to the bytes of the file, \<open>None\<close> where no readable file
  is. An output stream is the bytes of its file and the position of the next write;
  \<open>fputc\<close> overwrites at the position or appends at the end, \<open>rewind\<close> goes back to
  the start. \<open>fread\<close> with item size 1 copies up to \<open>n\<close> bytes from the rest of the
  input to the start of the array and leaves the other places of the array as they were;
  it returns the number of bytes read.
\<close>

type_synonym filesys = "string \<Rightarrow> byte list option"
type_synonym stream = "byte list \<times> nat"

fun fputc :: "byte \<Rightarrow> stream \<Rightarrow> stream" where
  "fputc c (bs, pos) = ((if pos < length bs then bs[pos := c] else bs @ [c]), pos + 1)"

fun rewind :: "stream \<Rightarrow> stream" where
  "rewind (bs, pos) = (bs, 0)"

definition byte_of_char :: "char \<Rightarrow> byte" where
  "byte_of_char c = of_nat (of_char c)"

definition fputs :: "string \<Rightarrow> stream \<Rightarrow> stream" where
  "fputs s out = foldl (\<lambda>st c. fputc (byte_of_char c) st) out s"

definition fread :: "nat \<Rightarrow> byte list \<Rightarrow> byte list \<Rightarrow> nat \<times> byte list \<times> byte list" where
  "fread n buffer rest =
     (let m = min n (length rest) in (m, take m rest @ drop m buffer, drop m rest))"

text \<open>\<open>snprintf(s, n, ...)\<close> keeps at most \<open>n - 1\<close> characters of the formatted text.\<close>

definition snprintf :: "nat \<Rightarrow> string \<Rightarrow> string" where
  "snprintf n s = take (n - 1) s"

definition nl :: string where
  "nl = [CHR 0x0A]"

definition dq :: string where
  "dq = [CHR 0x22]"

definition hex_digit :: "nat \<Rightarrow> char" where
  "hex_digit d = ''0123456789abcdef'' ! d"

text \<open>\<open>%08x\<close> of a 32-bit value: eight lower-case hexadecimal digits.\<close>

definition hex8 :: "u32 \<Rightarrow> string" where
  "hex8 x = map (\<lambda>i. hex_digit (unat (drop_bit (4 * i) x AND 0xF))) [7, 6, 5, 4, 3, 2, 1, 0]"

text \<open>\<open>%lu\<close> and \<open>%d\<close> of a value that is not negative.\<close>

function dec :: "nat \<Rightarrow> string" where
  "dec n = (if n < 10 then [hex_digit n] else dec (n div 10) @ [hex_digit (n mod 10)])"
  by pat_completeness auto
termination
  by (relation "measure id") auto

declare dec.simps [simp del]

text \<open>\<open>%d\<close> and \<open>%02d\<close> of an \<open>int\<close>.\<close>

definition fmt_d :: "int \<Rightarrow> string" where
  "fmt_d i = (if i < 0 then CHR ''-'' # dec (nat (- i)) else dec (nat i))"

definition fmt_02d :: "int \<Rightarrow> string" where
  "fmt_02d i =
     (if i < 0 then CHR ''-'' # dec (nat (- i))
      else replicate (2 - length (dec (nat i))) CHR ''0'' @ dec (nat i))"

section \<open>The image generator (sw/image_gen/image_gen.c)\<close>

definition signature :: u32 where
  "signature = 0x4788CAFE"

definition PRIVATE_KEY_FILE :: string where
  "PRIVATE_KEY_FILE = ''rsa_private.pem''"

definition SIGNATURE_FILE :: string where
  "SIGNATURE_FILE = ''sha256.sig''"

datatype operation_enum =
  OP_APP_BIN | OP_APP_VHD | OP_BLD_VHD | OP_RAW_HEX | OP_RAW_BIN | OP_RAW_COE | OP_RAW_MEM
  | OP_RAW_MIF

text \<open>
  What a run depends on beside its arguments: the files, which paths can be opened for
  writing, whether \<open>malloc\<close> succeeds, the local time, the external signer run by
  \<open>system\<close> (from the bytes of the digest file to its exit status and to the signature
  file it leaves, \<open>None\<close> when there is none to open), and the bytes the array
  \<open>buffer\<close> holds before anything is read into it (C leaves them indeterminate).
\<close>

record tm =
  tm_mday :: int
  tm_mon :: int
  tm_year :: int
  tm_hour :: int
  tm_min :: int
  tm_sec :: int

record world =
  files :: filesys
  writable :: "string \<Rightarrow> bool"
  malloc_ok :: bool
  localtime :: tm
  signer :: "byte list \<Rightarrow> int \<times> byte list option"
  buffer0 :: "byte list"

text \<open>
  What a run leaves: the value \<open>main\<close> returns, or \<open>Crash\<close> where the code hands a
  null stream to \<open>fwrite\<close>, \<open>fread\<close> or \<open>fclose\<close> (undefined behaviour; the C
  libraries dereference the pointer and the process is killed); the lines printed on
  standard output; the files. An output stream reaches its file when it is closed or
  rewound; at a crash the text written to the output so far is still in the stream's
  buffer and the file is as \<open>fopen\<close> truncated it.
\<close>

datatype status = Exit int | Crash

record result =
  status :: status
  stdout :: "string list"
  fs :: filesys

definition usage :: string where
  "usage = ''NEORV32 executable image generator'' @ nl @
     ''Three arguments are required.'' @ nl @
     ''1st: Operation'' @ nl @
     '' -app_bin : Generate application executable binary (binary file, little-endian, with header) '' @ nl @
     '' -app_vhd : Generate application raw executable memory image (vhdl package body file, no header)'' @ nl @
     '' -bld_vhd : Generate bootloader raw executable memory image (vhdl package body file, no header)'' @ nl @
     '' -raw_hex : Generate application raw executable (ASCII hex file, no header)'' @ nl @
     '' -raw_bin : Generate application raw executable (binary file, no header)'' @ nl @
     '' -raw_coe : Generate application raw executable (COE file, no header)'' @ nl @
     '' -raw_mem : Generate application raw executable (MEM file, no header)'' @ nl @
     '' -raw_mif : Generate application raw executable (MIF file, no header)'' @ nl @
     ''2nd: Input file (raw binary image)'' @ nl @
     ''3rd: Output file'' @ nl @
     ''4th: Project name or folder (optional)'' @ nl"

definition parse_operation :: "string \<Rightarrow> operation_enum option" where
  "parse_operation a =
     (if a = ''-app_bin'' then Some OP_APP_BIN
      else if a = ''-app_vhd'' then Some OP_APP_VHD
      else if a = ''-bld_vhd'' then Some OP_BLD_VHD
      else if a = ''-raw_hex'' then Some OP_RAW_HEX
      else if a = ''-raw_bin'' then Some OP_RAW_BIN
      else if a = ''-raw_coe'' then Some OP_RAW_COE
      else if a = ''-raw_mem'' then Some OP_RAW_MEM
      else if a = ''-raw_mif'' then Some OP_RAW_MIF
      else None)"

definition compile_time :: "tm \<Rightarrow> string" where
  "compile_time t =
     snprintf 64 (fmt_02d (tm_mday t) @ ''.'' @ fmt_02d (tm_mon t + 1) @ ''.'' @
       fmt_d (tm_year t + 1900) @ '' '' @ fmt_02d (tm_hour t) @ '':'' @ fmt_02d (tm_min t) @
       '':'' @ fmt_02d (tm_sec t))"

text \<open>
  \<open>tmp = (uint32_t)(buffer[0] << 0); tmp |= (uint32_t)(buffer[1] << 8); ...\<close>: the
  little-endian word of the four bytes of \<open>buffer\<close>.
\<close>

definition word_of_buffer :: "byte list \<Rightarrow> u32" where
  "word_of_buffer buffer =
     ucast (buffer ! 0) OR push_bit 8 (ucast (buffer ! 1)) OR
     push_bit 16 (ucast (buffer ! 2)) OR push_bit 24 (ucast (buffer ! 3))"

text \<open>
  The four \<open>fputc((unsigned char)((x >> s) & 0xFF), output)\<close> of a header word,
  \<open>s = 0, 8, 16, 24\<close>.
\<close>

definition put_word :: "u32 \<Rightarrow> stream \<Rightarrow> stream" where
  "put_word x out =
     fputc (ucast (drop_bit 24 x AND 0xFF))
       (fputc (ucast (drop_bit 16 x AND 0xFF))
         (fputc (ucast (drop_bit 8 x AND 0xFF))
           (fputc (ucast (drop_bit 0 x AND 0xFF)) out)))"

subsection \<open>\<open>-app_bin\<close>\<close>

text \<open>
  \<open>while (fread(&buffer, sizeof(unsigned char), 4, input) != 0)\<close> with its body: the
  word of the buffer is added to the checksum, the four bytes of the buffer are written,
  \<open>size\<close> (\<open>sz\<close> here) grows by 4.
\<close>

function app_bin_loop ::
  "byte list \<Rightarrow> byte list \<Rightarrow> u32 \<Rightarrow> u32 \<Rightarrow> stream \<Rightarrow> byte list \<times> u32 \<times> u32 \<times> stream" where
  "app_bin_loop rest buffer checksum sz out =
     (let (n, buffer, rest) = fread 4 buffer rest
      in if n \<noteq> 0
         then (let tmp = word_of_buffer buffer;
                   checksum = checksum + tmp;
                   out = fputc (buffer ! 0) out;
                   out = fputc (buffer ! 1) out;
                   out = fputc (buffer ! 2) out;
                   out = fputc (buffer ! 3) out;
                   sz = sz + 4
               in app_bin_loop rest buffer checksum sz out)
         else (buffer, checksum, sz, out))"
  by pat_completeness auto
termination
  by (relation "measure (\<lambda>(rest, buffer, checksum, sz, out). length rest)")
     (auto simp: fread_def Let_def)

declare app_bin_loop.simps [simp del]

text \<open>
  The whole \<open>-app_bin\<close> branch, from the input bytes and the initial buffer to the final
  values of \<open>size\<close>, \<open>checksum\<close> and the output stream.
\<close>

definition app_bin :: "byte list \<Rightarrow> byte list \<Rightarrow> stream \<Rightarrow> u32 \<times> u32 \<times> stream" where
  "app_bin content buffer out =
     (let out = (fputc 0 ^^ 12) out;
          (buffer, checksum, sz, out) = app_bin_loop content buffer 0 0 out;
          out = rewind out;
          out = put_word signature out;
          out = put_word sz out;
          checksum = NOT checksum + 1;
          out = put_word checksum out
      in (sz, checksum, out))"

subsection \<open>\<open>-app_vhd\<close> and the image part of \<open>-bld_vhd\<close>\<close>

text \<open>
  \<open>argv[4]\<close> is a null pointer when only three arguments are given; \<open>%s\<close> of it is
  undefined in C and the text \<open>(null)\<close> with glibc, which the model takes.
\<close>

definition project :: "string list \<Rightarrow> string" where
  "project argv = (if length argv = 5 then argv ! 4 else ''(null)'')"

definition vhd_header :: "string \<Rightarrow> string \<Rightarrow> string list \<Rightarrow> string \<Rightarrow> u64 \<Rightarrow> string" where
  "vhd_header rom name argv ctime bytes =
     snprintf 1024
      (''-- The NEORV32 RISC-V Processor - github.com/stnolting/neorv32'' @ nl @
       ''-- Auto-generated memory initialization image (for internal '' @ rom @ '')'' @ nl @
       ''-- Source: '' @ project argv @ ''/'' @ argv ! 2 @ nl @
       ''-- Built: '' @ ctime @ nl @
       nl @
       ''library ieee;'' @ nl @
       ''use ieee.std_logic_1164.all;'' @ nl @
       nl @
       ''library neorv32;'' @ nl @
       ''use neorv32.neorv32_package.all;'' @ nl @
       nl @
       ''package neorv32_'' @ name @ ''_image is'' @ nl @
       nl @
       ''constant '' @ name @ ''_init_size_c  : natural := '' @ dec (unat bytes) @ ''; -- bytes'' @ nl @
       ''constant '' @ name @ ''_init_image_c : mem32_t := ('' @ nl)"

text \<open>
  \<open>while (i < (input_words-1))\<close> with the \<open>break\<close> at the end of the input; the
  comparison and the subtraction are on \<open>unsigned int\<close>.
\<close>

function vhd_loop ::
  "u32 \<Rightarrow> u32 \<Rightarrow> byte list \<Rightarrow> byte list \<Rightarrow> stream \<Rightarrow> string list \<Rightarrow>
     u32 \<times> byte list \<times> byte list \<times> stream \<times> string list" where
  "vhd_loop input_words i rest buffer out log =
     (if i < input_words - 1
      then (let (n, buffer, rest) = fread 4 buffer rest
            in if n \<noteq> 0
               then (let tmp = word_of_buffer buffer;
                         out = fputs (snprintf 1024 (''x'' @ dq @ hex8 tmp @ dq @ '','' @ nl)) out
                     in vhd_loop input_words (i + 1) rest buffer out log)
               else (i, rest, buffer, out, log @ [''Unexpected input file end!'' @ nl]))
      else (i, rest, buffer, out, log))"
  by pat_completeness auto
termination
  by (relation "measure (\<lambda>(input_words, i, rest, buffer, out, log). length rest)")
     (auto simp: fread_def Let_def)

declare vhd_loop.simps [simp del]

text \<open>The loop and the last word, written without a comma.\<close>

definition vhd_image ::
  "u32 \<Rightarrow> byte list \<Rightarrow> byte list \<Rightarrow> stream \<Rightarrow> string list \<Rightarrow> stream \<times> string list" where
  "vhd_image input_words content buffer out log =
     (let (i, rest, buffer, out, log) = vhd_loop input_words 0 content buffer out log;
          (n, buffer, rest) = fread 4 buffer rest
      in if n \<noteq> 0
         then (let tmp = word_of_buffer buffer
               in (fputs (snprintf 1024 (''x'' @ dq @ hex8 tmp @ dq @ nl)) out, log))
         else (out, log @ [''Unexpected input file end!'' @ nl]))"

definition app_vhd ::
  "string list \<Rightarrow> string \<Rightarrow> byte list \<Rightarrow> byte list \<Rightarrow> stream \<Rightarrow> string list \<Rightarrow>
     stream \<times> string list" where
  "app_vhd argv ctime content buffer out log =
     (let raw_exe_size = (of_nat (length content) :: u64);
          input_words = (of_nat (length content) :: u32) div 4;
          out = fputs (vhd_header ''IMEM'' ''application'' argv ctime raw_exe_size) out;
          (out, log) = vhd_image input_words content buffer out log;
          out = fputs (snprintf 1024 ('');'' @ nl @ nl @ ''end neorv32_application_image;'' @ nl)) out
      in (out, log))"

subsection \<open>\<open>-bld_vhd\<close>: the secure-boot record\<close>

text \<open>
  Everything up to the \<open>rewind(input)\<close> before the hash: header (with 260 bytes more
  than the image, for the signature and the size word), image words, and the opening of
  the record constant.
\<close>

definition bld_vhd_image ::
  "string list \<Rightarrow> string \<Rightarrow> byte list \<Rightarrow> byte list \<Rightarrow> stream \<Rightarrow> string list \<Rightarrow>
     stream \<times> string list" where
  "bld_vhd_image argv ctime content buffer out log =
     (let raw_exe_size = (of_nat (length content) :: u64);
          input_words = (of_nat (length content) :: u32) div 4;
          out = fputs (vhd_header ''BOOTROM'' ''bootloader'' argv ctime (raw_exe_size + 260)) out;
          (out, log) = vhd_image input_words content buffer out log;
          out = fputs (snprintf 1024 ('');'' @ nl)) out;
          out = fputs (snprintf 1024
                  (''constant bootloader_init_secure_boot_info_c : mem32_t := ('' @ nl)) out
      in (out, log))"

text \<open>
  The digest file: each \<open>uint32_t\<close> of the digest written by \<open>fwrite\<close> as it lies in
  memory, least significant byte first on the little-endian hosts the tool runs on.
\<close>

definition bytes_of_word :: "u32 \<Rightarrow> byte list" where
  "bytes_of_word x = [ucast x, ucast (drop_bit 8 x), ucast (drop_bit 16 x), ucast (drop_bit 24 x)]"

definition digest_bytes :: "u32 list \<Rightarrow> byte list" where
  "digest_bytes sha256_digest = concat (map (\<lambda>j. bytes_of_word (sha256_digest ! j)) [0..<8])"

text \<open>
  The inner loop \<open>for (int b = 0; b < 4 && (k + b) < sig_len; b++)\<close> and the outer
  loop \<open>for (size_t k = 0; k < sig_len; k += 4)\<close>, which writes one line for each word.
  The signature array is called \<open>sig\<close> here: its C name, \<open>signature\<close>, is that of the
  magic word as well; its index \<open>k\<close> is \<open>kk\<close>.
\<close>

function sig_word :: "byte list \<Rightarrow> nat \<Rightarrow> nat \<Rightarrow> nat \<Rightarrow> u32 \<Rightarrow> u32" where
  "sig_word sig sig_len kk b word =
     (if b < 4 \<and> kk + b < sig_len
      then sig_word sig sig_len kk (b + 1) (word OR push_bit (8 * b) (ucast (sig ! (kk + b))))
      else word)"
  by pat_completeness auto
termination
  by (relation "measure (\<lambda>(sig, sig_len, kk, b, word). 4 - b)") auto

declare sig_word.simps [simp del]

function sig_loop :: "byte list \<Rightarrow> nat \<Rightarrow> nat \<Rightarrow> stream \<Rightarrow> stream" where
  "sig_loop sig sig_len kk out =
     (if kk < sig_len
      then (let word = sig_word sig sig_len kk 0 0;
                out = fputs (snprintf 1024 (''x'' @ dq @ hex8 word @ dq @ '','' @ nl)) out
            in sig_loop sig sig_len (kk + 4) out)
      else out)"
  by pat_completeness auto
termination
  by (relation "measure (\<lambda>(sig, sig_len, kk, out). sig_len - kk)") auto

declare sig_loop.simps [simp del]

text \<open>
  The record, from the signature loop to the size word (\<open>-- Bootloader code size\<close>),
  and the end of the package.
\<close>

definition secure_boot_record :: "byte list \<Rightarrow> nat \<Rightarrow> u32 \<Rightarrow> stream \<Rightarrow> stream" where
  "secure_boot_record sig sig_len input_words out =
     (let out = sig_loop sig sig_len 0 out
      in fputs (snprintf 1024
           (''x'' @ dq @ hex8 input_words @ dq @ '' -- Bootloader code size'' @ nl)) out)"

definition bld_vhd_end :: "stream \<Rightarrow> stream" where
  "bld_vhd_end out =
     (let out = fputs (snprintf 1024 ('');'' @ nl)) out
      in fputs (snprintf 1024 (nl @ ''end neorv32_bootloader_image;'' @ nl)) out)"

text \<open>
  The \<open>-bld_vhd\<close> branch. \<open>fs\<close> is the file system after the output has been opened;
  closing the output stores the stream in its file. The places of the array
  \<open>signature[256]\<close> from \<open>sig_len\<close> on are indeterminate in C and never read (the
  model fills them with 0).
\<close>

definition bld_vhd ::
  "string list \<Rightarrow> world \<Rightarrow> string \<Rightarrow> byte list \<Rightarrow> filesys \<Rightarrow> string list \<Rightarrow> result" where
  "bld_vhd argv w ctime content fs0 log =
     (let input_size = (of_nat (length content) :: u32);
          input_words = input_size div 4;
          (out, log) = bld_vhd_image argv ctime content (buffer0 w) ([], 0) log
      in if \<not> malloc_ok w
         then \<lparr>status = Exit (- 5), stdout = log @ [''Memory allocation failed!'' @ nl],
               fs = fs0(argv ! 3 \<mapsto> fst out)\<rparr>
         else if fst (fread (unat input_size) (replicate (unat input_size) 0) content)
                   \<noteq> unat input_size
         then \<lparr>status = Exit (- 6),
               stdout = log @ [''Failed to read input file for SHA256!'' @ nl],
               fs = fs0(argv ! 3 \<mapsto> fst out)\<rparr>
         else
          (let input_buf = fst (snd (fread (unat input_size) (replicate (unat input_size) 0) content));
               sha256_digest = sha256 input_buf
           in if \<not> writable w ''sha256.bin''
              then \<lparr>status = Crash, stdout = log @ [''Failed to open temp digest file!'' @ nl],
                    fs = fs0\<rparr>
              else
               (let fs1 = fs0(''sha256.bin'' \<mapsto> digest_bytes sha256_digest);
                    (ret, sig_after) = signer w (digest_bytes sha256_digest);
                    fs2 = fs1(SIGNATURE_FILE := sig_after);
                    log = (if ret \<noteq> 0 then log @ [''OpenSSL signing failed!'' @ nl] else log)
                in case fs2 SIGNATURE_FILE of
                     None \<Rightarrow>
                       \<lparr>status = Crash, stdout = log @ [''Failed to open signature file!'' @ nl],
                        fs = fs2\<rparr>
                   | Some sig_bytes \<Rightarrow>
                       (let sig_len = fst (fread 256 (replicate 256 0) sig_bytes);
                            sig = fst (snd (fread 256 (replicate 256 0) sig_bytes));
                            fs3 = fs2(''sha256.bin'' := None);
                            fs4 = fs3(SIGNATURE_FILE := None);
                            out = secure_boot_record sig sig_len input_words out;
                            out = bld_vhd_end out
                        in \<lparr>status = Exit 0, stdout = log, fs = fs4(argv ! 3 \<mapsto> fst out)\<rparr>))))"

subsection \<open>The raw formats\<close>

text \<open>
  \<open>while (fread(&buffer, sizeof(unsigned char), 4, input) != 0)\<close> with a body that
  prints one line from the counter \<open>i\<close> and the word, and counts.
\<close>

function raw_loop ::
  "(u32 \<Rightarrow> u32 \<Rightarrow> string) \<Rightarrow> u32 \<Rightarrow> byte list \<Rightarrow> byte list \<Rightarrow> stream \<Rightarrow> stream" where
  "raw_loop fmt i rest buffer out =
     (let (n, buffer, rest) = fread 4 buffer rest
      in if n \<noteq> 0
         then (let tmp = word_of_buffer buffer;
                   out = fputs (snprintf 1024 (fmt i tmp)) out
               in raw_loop fmt (i + 1) rest buffer out)
         else out)"
  by pat_completeness auto
termination
  by (relation "measure (\<lambda>(fmt, i, rest, buffer, out). length rest)")
     (auto simp: fread_def Let_def)

declare raw_loop.simps [simp del]

text \<open>\<open>-raw_bin\<close>: \<open>while (fread(&buffer, sizeof(unsigned char), 1, input) != 0)\<close>.\<close>

function raw_bin :: "byte list \<Rightarrow> byte list \<Rightarrow> stream \<Rightarrow> stream" where
  "raw_bin rest buffer out =
     (let (n, buffer, rest) = fread 1 buffer rest
      in if n \<noteq> 0 then raw_bin rest buffer (fputc (buffer ! 0) out) else out)"
  by pat_completeness auto
termination
  by (relation "measure (\<lambda>(rest, buffer, out). length rest)")
     (auto simp: fread_def Let_def)

declare raw_bin.simps [simp del]

definition raw_hex :: "byte list \<Rightarrow> byte list \<Rightarrow> stream \<Rightarrow> stream" where
  "raw_hex content buffer out = raw_loop (\<lambda>i tmp. hex8 tmp @ nl) 0 content buffer out"

definition raw_coe :: "byte list \<Rightarrow> byte list \<Rightarrow> stream \<Rightarrow> stream" where
  "raw_coe content buffer out =
     (let input_words = (of_nat (length content) :: u32) div 4;
          out = fputs (snprintf 1024 (''memory_initialization_radix=16;'' @ nl)) out;
          out = fputs (snprintf 1024 (''memory_initialization_vector='' @ nl)) out
      in raw_loop (\<lambda>i tmp. if i = input_words - 1 then hex8 tmp @ '';'' @ nl
                            else hex8 tmp @ '','' @ nl) 0 content buffer out)"

definition raw_mem :: "byte list \<Rightarrow> byte list \<Rightarrow> stream \<Rightarrow> stream" where
  "raw_mem content buffer out =
     raw_loop (\<lambda>i tmp. ''@'' @ hex8 i @ '' '' @ hex8 tmp @ nl) 0 content buffer out"

definition raw_mif :: "byte list \<Rightarrow> byte list \<Rightarrow> stream \<Rightarrow> stream" where
  "raw_mif content buffer out =
     (let raw_exe_size = (of_nat (length content) :: u64);
          out = fputs (snprintf 1024 (''DEPTH = '' @ dec (unat (raw_exe_size div 4)) @ '';'' @ nl)) out;
          out = fputs (snprintf 1024 (''WIDTH = 32;'' @ nl)) out;
          out = fputs (snprintf 1024 (''ADDRESS_RADIX = HEX;'' @ nl)) out;
          out = fputs (snprintf 1024 (''DATA_RADIX = HEX;'' @ nl)) out;
          out = fputs (snprintf 1024 (''CONTENT'' @ nl)) out;
          out = fputs (snprintf 1024 (''BEGIN'' @ nl)) out;
          out = raw_loop (\<lambda>i tmp. hex8 i @ '' : '' @ hex8 tmp @ '';'' @ nl) 0 content buffer out
      in fputs (snprintf 1024 (''END;'' @ nl)) out)"

subsection \<open>\<open>main\<close>\<close>

text \<open>
  \<open>argv\<close> holds the program name and the arguments, so \<open>argc\<close> is its length. The
  input is read as the bytes its file holds when it is opened; the model is of runs
  whose input, output and two transient files are four different files. The size of
  the input is kept in an \<open>unsigned int\<close>, \<open>input_size\<close>.
\<close>

definition main :: "string list \<Rightarrow> world \<Rightarrow> result" where
  "main argv w =
     (if length argv \<noteq> 4 \<and> length argv \<noteq> 5
      then \<lparr>status = Exit 0, stdout = [usage], fs = files w\<rparr>
      else case parse_operation (argv ! 1) of
        None \<Rightarrow>
          \<lparr>status = Exit (- 1),
           stdout = [''Invalid operation '' @ [CHR 0x27] @ argv ! 1 @ [CHR 0x27] @ ''!'' @ nl],
           fs = files w\<rparr>
      | Some operation \<Rightarrow>
         (case files w (argv ! 2) of
            None \<Rightarrow>
              \<lparr>status = Exit (- 2),
               stdout = [''Input file error ('' @ argv ! 2 @ '')!'' @ nl], fs = files w\<rparr>
          | Some content \<Rightarrow>
             (let input_size = (of_nat (length content) :: u32);
                  log = (if input_size mod 4 \<noteq> 0
                         then [''WARNING - image size is not a multiple of 4 bytes!'' @ nl]
                         else [])
              in if input_size = 0
                 then \<lparr>status = Exit (- 3),
                       stdout = log @ [''Input file is empty ('' @ argv ! 2 @ '')!'' @ nl],
                       fs = files w\<rparr>
                 else if \<not> writable w (argv ! 3)
                 then \<lparr>status = Exit (- 4),
                       stdout = log @ [''Output file error ('' @ argv ! 3 @ '')!'' @ nl],
                       fs = files w\<rparr>
                 else
                  (let fs0 = (files w)(argv ! 3 \<mapsto> []);
                       ctime = compile_time (localtime w);
                       done = (\<lambda>(out, log).
                         \<lparr>status = Exit 0, stdout = log, fs = fs0(argv ! 3 \<mapsto> fst out)\<rparr>)
                   in case operation of
                        OP_APP_BIN \<Rightarrow>
                          done (snd (snd (app_bin content (buffer0 w) ([], 0))), log)
                      | OP_APP_VHD \<Rightarrow> done (app_vhd argv ctime content (buffer0 w) ([], 0) log)
                      | OP_BLD_VHD \<Rightarrow> bld_vhd argv w ctime content fs0 log
                      | OP_RAW_HEX \<Rightarrow> done (raw_hex content (buffer0 w) ([], 0), log)
                      | OP_RAW_BIN \<Rightarrow> done (raw_bin content (buffer0 w) ([], 0), log)
                      | OP_RAW_COE \<Rightarrow> done (raw_coe content (buffer0 w) ([], 0), log)
                      | OP_RAW_MEM \<Rightarrow> done (raw_mem content (buffer0 w) ([], 0), log)
                      | OP_RAW_MIF \<Rightarrow> done (raw_mif content (buffer0 w) ([], 0), log)))))"

section \<open>Reference notions the properties are stated with\<close>

text \<open>
  The padded message of SHA-256, in the words of the specification: the data, the byte
  0x80, zero bytes until the length is 56 modulo 64, and the bit length of the data as a
  64-bit big-endian integer; and its 64-byte blocks.
\<close>

definition be64 :: "u64 \<Rightarrow> byte list" where
  "be64 x = [ucast (drop_bit 56 x), ucast (drop_bit 48 x), ucast (drop_bit 40 x),
             ucast (drop_bit 32 x), ucast (drop_bit 24 x), ucast (drop_bit 16 x),
             ucast (drop_bit 8 x), ucast x]"

definition pad_zeros :: "nat \<Rightarrow> nat" where
  "pad_zeros len = (119 - len mod 64) mod 64"

definition sha256_padded :: "byte list \<Rightarrow> byte list" where
  "sha256_padded data =
     data @ [0x80] @ replicate (pad_zeros (length data)) 0 @ be64 (of_nat (length data) * 8)"

definition blocks64 :: "byte list \<Rightarrow> byte list list" where
  "blocks64 m = map (\<lambda>i. take 64 (drop (64 * i) m)) [0..<length m div 64]"

text \<open>
  Compressing a list of blocks one after the other; the blocks of the data the loop of
  \<open>sha256\<close> goes through; and the one or two blocks that \<open>sha256\<close> builds in
  \<open>buf\<close> after them.
\<close>

definition compress_all :: "u32 list \<Rightarrow> byte list list \<Rightarrow> u32 list" where
  "compress_all h bs = foldl (\<lambda>h b. compress h b 0) h bs"

abbreviation blocks_from :: "byte list \<Rightarrow> nat \<Rightarrow> nat \<Rightarrow> byte list list" where
  "blocks_from data offset n \<equiv> map (\<lambda>i. take 64 (drop (offset + 64 * i) data)) [0..<n]"

definition tail_blocks :: "byte list \<Rightarrow> byte list list" where
  "tail_blocks data =
     (let r = length data mod 64;
          rest = drop (length data - r) data;
          bits = be64 (of_nat (length data) * 8)
      in if 56 \<le> r then [rest @ 0x80 # replicate (63 - r) 0, replicate 56 0 @ bits]
         else [rest @ 0x80 # replicate (55 - r) 0 @ bits])"

text \<open>
  The words of a byte sequence, in the words of the specification: each four consecutive
  bytes give one 32-bit word, the first byte the least significant.
\<close>

definition le32 :: "byte \<Rightarrow> byte \<Rightarrow> byte \<Rightarrow> byte \<Rightarrow> u32" where
  "le32 a b c d = of_nat (unat a + 256 * unat b + 65536 * unat c + 16777216 * unat d)"

fun le_words :: "byte list \<Rightarrow> u32 list" where
  "le_words (a # b # c # d # rest) = le32 a b c d # le_words rest"
| "le_words rest = []"

text \<open>
  What the array \<open>buffer\<close> holds after one \<open>fread\<close> of four bytes from a rest that
  is not empty, and the bytes the loops over \<open>fread\<close> go through group by group: a last
  read of fewer than four bytes leaves the other places of the buffer as they were.
\<close>

definition group :: "byte list \<Rightarrow> byte list \<Rightarrow> byte list" where
  "group buffer rest = (if length rest < 4 then rest @ drop (length rest) buffer else take 4 rest)"

function effective :: "byte list \<Rightarrow> byte list \<Rightarrow> byte list" where
  "effective buffer rest =
     (if rest = [] then []
      else if length rest < 4 then rest @ drop (length rest) buffer
      else take 4 rest @ effective (take 4 rest) (drop 4 rest))"
  by pat_completeness auto
termination
  by (relation "measure (\<lambda>(buffer, rest). length rest)") auto

declare effective.simps [simp del]

text \<open>
  The secure-boot record, in the words of the specification: the signature cut into
  32-bit little-endian words, a last group of fewer than four bytes filled with zero
  bytes; each word on a line of its own, and after them the line of the size word.
  \<open>count_lines\<close> counts the line ends of a text, that is, the words of a record.
\<close>

definition byte_at :: "byte list \<Rightarrow> nat \<Rightarrow> byte" where
  "byte_at bs i = (if i < length bs then bs ! i else 0)"

definition padded_words :: "byte list \<Rightarrow> u32 list" where
  "padded_words bs =
     map (\<lambda>j. le32 (byte_at bs (4 * j)) (byte_at bs (4 * j + 1)) (byte_at bs (4 * j + 2))
                 (byte_at bs (4 * j + 3)))
       [0..<(length bs + 3) div 4]"

definition bytes_of_string :: "string \<Rightarrow> byte list" where
  "bytes_of_string s = map byte_of_char s"

definition sig_line :: "u32 \<Rightarrow> string" where
  "sig_line x = ''x'' @ dq @ hex8 x @ dq @ '','' @ nl"

definition size_line :: "u32 \<Rightarrow> string" where
  "size_line x = ''x'' @ dq @ hex8 x @ dq @ '' -- Bootloader code size'' @ nl"

definition record_text :: "u32 list \<Rightarrow> u32 \<Rightarrow> string" where
  "record_text ws x = concat (map sig_line ws) @ size_line x"

definition count_lines :: "byte list \<Rightarrow> nat" where
  "count_lines bs = length (filter (\<lambda>c. c = 0x0A) bs)"

text \<open>
  The word that the signature loop writes for the group \<open>j\<close>, and the streams whose
  next write is at the end of their file.
\<close>

definition sig_word_at :: "byte list \<Rightarrow> nat \<Rightarrow> nat \<Rightarrow> u32" where
  "sig_word_at sig sig_len j =
     word_of_buffer [if 4 * j < sig_len then sig ! (4 * j) else 0,
                     if 4 * j + 1 < sig_len then sig ! (4 * j + 1) else 0,
                     if 4 * j + 2 < sig_len then sig ! (4 * j + 2) else 0,
                     if 4 * j + 3 < sig_len then sig ! (4 * j + 3) else 0]"

definition at_end :: "stream \<Rightarrow> bool" where
  "at_end out = (snd out = length (fst out))"

text \<open>
  A world for worked examples: the input \<open>in.bin\<close> with given bytes is the only file,
  every path can be opened for writing, \<open>malloc\<close> succeeds, and the signer is given.
\<close>

definition test_world :: "byte list \<Rightarrow> (byte list \<Rightarrow> int \<times> byte list option) \<Rightarrow> world" where
  "test_world b sg =
     \<lparr>files = (\<lambda>p. if p = ''in.bin'' then Some b else None), writable = (\<lambda>p. True),
      malloc_ok = True,
      localtime = \<lparr>tm_mday = 1, tm_mon = 0, tm_year = 125, tm_hour = 12, tm_min = 0, tm_sec = 0\<rparr>,
      signer = sg, buffer0 = [0, 0, 0, 0]\<rparr>"

text \<open>
  Values of words are kept below \<open>2 ^ 32\<close> while a digest is evaluated: \<open>norm32\<close> is
  the identity, and marks the places where a numeral is reduced.
\<close>

definition norm32 :: "u32 \<Rightarrow> u32" where
  "norm32 x = x"

definition round_fin :: "u32 \<Rightarrow> u32 \<Rightarrow> vars \<Rightarrow> vars" where
  "round_fin t1 t2 v =
     (case v of (a, b, c, d, e, f, g, hh) \<Rightarrow>
        (norm32 (t1 + t2), a, b, c, norm32 (d + t1), e, f, g))"

definition compress_fin :: "u32 list \<Rightarrow> vars \<Rightarrow> u32 list" where
  "compress_fin h v =
     (case v of (a, b, c, d, e, f, g, hh) \<Rightarrow>
        [norm32 (h ! 0 + a), norm32 (h ! 1 + b), norm32 (h ! 2 + c), norm32 (h ! 3 + d),
         norm32 (h ! 4 + e), norm32 (h ! 5 + f), norm32 (h ! 6 + g), norm32 (h ! 7 + hh)])"

section \<open>Evaluating the hash on given bytes\<close>

lemma word_of_nat_mod32: "(word_of_nat (m mod 4294967296) :: u32) = word_of_nat m"
proof -
  have "(word_of_nat (m mod 2 ^ 32) :: u32) = word_of_nat m"
    by (simp add: word_of_nat_eq_iff take_bit_eq_mod)
  then show ?thesis by simp
qed

lemma norm32_numeral: "norm32 (numeral n) = word_of_nat (numeral n mod 4294967296)"
  unfolding norm32_def word_of_nat_mod32 by simp

lemma norm32_0: "norm32 0 = 0"
  by (simp add: norm32_def)

lemma norm32_1: "norm32 1 = 1"
  by (simp add: norm32_def)

lemma ROTR_ev: "ROTR x n = norm32 (drop_bit n x OR push_bit (32 - n) x)"
  by (simp add: ROTR_def norm32_def)

lemma w_step_ev:
  "w_step w i =
     w @ [norm32 (SSIG1 (w ! (i - 2)) + w ! (i - 7) + SSIG0 (w ! (i - 15)) + w ! (i - 16))]"
  by (simp add: w_step_def norm32_def)

lemma round_step_ev:
  "round_step w (a, b, c, d, e, f, g, hh) i =
     round_fin (norm32 (hh + BSIG1 e + CH e f g + k ! i + w ! i))
       (norm32 (BSIG0 a + MAJ a b c)) (a, b, c, d, e, f, g, hh)"
  by (simp add: round_fin_def norm32_def Let_def)

lemma compress_ev:
  "compress h p off =
     compress_fin h (foldl (round_step (schedule p off))
       (h ! 0, h ! 1, h ! 2, h ! 3, h ! 4, h ! 5, h ! 6, h ! 7) [0..<64])"
  by (simp add: compress_def compress_fin_def norm32_def Let_def split: prod.splits)

lemma upt_0_ev: "2 \<le> n \<Longrightarrow> [0..<n] = 0 # 1 # [2..<n]"
  by (simp add: upt_conv_Cons numeral_2_eq_2)

lemma replicate_ev: "replicate (numeral n) x = x # replicate (pred_numeral n) x"
  by (simp add: numeral_eq_Suc)

lemma list_update_ev: "(x # xs)[numeral n := y] = x # xs[pred_numeral n := y]"
  by (simp add: numeral_eq_Suc)

lemmas sha_ev =
  ROTR_ev SHR_def CH_def MAJ_def BSIG0_def BSIG1_def SSIG0_def SSIG1_def load_be_def
  norm32_numeral norm32_0 norm32_1 w_step_ev round_step_ev compress_ev upt_0_ev schedule_def
  w_load_def round_fin_def compress_fin_def k_def h_init_def replicate_ev

lemmas run_ev =
  sha256_run_def full_blocks.simps Let_def store_bits_def replicate_ev list_update_ev

lemma sha256_run_empty:
  "sha256_run [] = (compress h_init (0x80 # replicate 63 0) 0, [0x80 # replicate 63 0])"
  by (simp add: run_ev)

lemma sha256_run_abc:
  "sha256_run [0x61, 0x62, 0x63] =
     (compress h_init ([0x61, 0x62, 0x63, 0x80] @ replicate 59 0 @ [0x18]) 0,
      [[0x61, 0x62, 0x63, 0x80] @ replicate 59 0 @ [0x18]])"
  by (simp add: run_ev)

lemma compress_empty:
  "compress h_init (0x80 # replicate 63 0) 0 =
     [0xe3b0c442, 0x98fc1c14, 0x9afbf4c8, 0x996fb924,
      0x27ae41e4, 0x649b934c, 0xa495991b, 0x7852b855]"
  by (simp add: sha_ev)

lemma compress_abc:
  "compress h_init ([0x61, 0x62, 0x63, 0x80] @ replicate 59 0 @ [0x18]) 0 =
     [0xba7816bf, 0x8f01cfea, 0x414140de, 0x5dae2223,
      0xb00361a3, 0x96177a9c, 0xb410ff61, 0xf20015ad]"
  by (simp add: sha_ev)

section \<open>The structure of the hash: blocks and padding\<close>

lemma load_be_local:
  assumes "off + 64 \<le> length data" "j + 3 < 64"
  shows "load_be (take 64 (drop off data)) j = load_be data (off + j)"
  using assms by (simp add: load_be_def add.assoc)

lemma w_load_local:
  assumes "off + 64 \<le> length data"
  shows "w_load (take 64 (drop off data)) 0 = w_load data off"
  unfolding w_load_def
proof (rule map_cong [OF refl])
  fix i assume "i \<in> set [0..<16]"
  then have "4 * i + 3 < 64" by simp
  from load_be_local [OF assms this] show "load_be (take 64 (drop off data)) (0 + 4 * i) = load_be data (off + 4 * i)"
    by simp
qed

lemma compress_local:
  assumes "off + 64 \<le> length data"
  shows "compress h (take 64 (drop off data)) 0 = compress h data off"
  unfolding compress_def schedule_def by (simp only: w_load_local [OF assms])

lemma blocks_from_Suc:
  "blocks_from data offset (Suc n) = take 64 (drop offset data) # blocks_from data (offset + 64) n"
proof -
  have "[0..<Suc n] = 0 # map Suc [0..<n]"
    by (simp add: upt_conv_Cons map_Suc_upt del: upt_Suc)
  then show ?thesis
    by (simp add: comp_def add.assoc del: upt_Suc)
qed

lemma full_blocks_eq:
  "full_blocks data h offset tr =
     (compress_all h (blocks_from data offset ((length data - offset) div 64)),
      offset + 64 * ((length data - offset) div 64),
      tr @ blocks_from data offset ((length data - offset) div 64))"
proof (induction data h offset tr rule: full_blocks.induct)
  case (1 data h offset tr)
  show ?case
  proof (cases "offset + 64 \<le> length data")
    case True
    have "length data - offset = (length data - (offset + 64)) + 64"
      using True by simp
    then have n: "(length data - offset) div 64 = Suc ((length data - (offset + 64)) div 64)"
      by (metis Suc_eq_plus1 div_add_self2 zero_neq_numeral)
    have step: "full_blocks data h offset tr =
        full_blocks data (compress h data offset) (offset + 64) (tr @ [take 64 (drop offset data)])"
      using True by (subst full_blocks.simps) simp
    show ?thesis
      unfolding step "1.IH" [OF True] n blocks_from_Suc
      by (simp add: compress_all_def compress_local [OF True] del: upt_Suc)
  next
    case False
    then have "(length data - offset) div 64 = 0" by simp
    with False show ?thesis
      by (subst full_blocks.simps) (simp add: compress_all_def)
  qed
qed

lemma be_bytes:
  fixes a b c d :: byte
  defines "w \<equiv> (push_bit 24 (ucast a) OR push_bit 16 (ucast b) OR push_bit 8 (ucast c) OR ucast d :: u32)"
  shows "ucast (drop_bit 24 w) = a" "ucast (drop_bit 16 w) = b" "ucast (drop_bit 8 w) = c" "ucast w = d"
  unfolding w_def
  by (rule bit_word_eqI; auto simp: bit_simps dest: bit_imp_le_length)+

lemma store_be_load_be:
  assumes "j + 3 < length buf"
  shows "store_be buf j (load_be buf j) = buf"
  unfolding store_be_def load_be_def be_bytes by simp

lemma rewrite_words_id:
  assumes "length buf = 64"
  shows "rewrite_words buf = buf"
proof -
  have "foldl (\<lambda>b i. store_be b (4 * i) (load_be b (4 * i))) buf is = buf" if "set is \<subseteq> {0..<16}" for "is"
    using that by (induction "is") (simp_all add: store_be_load_be assms)
  then show ?thesis by (simp add: rewrite_words_def)
qed

lemma length8D:
  assumes "length q = 8"
  shows "\<exists>q0 q1 q2 q3 q4 q5 q6 q7. q = [q0, q1, q2, q3, q4, q5, q6, q7]"
proof -
  have "length q = Suc (Suc (Suc (Suc (Suc (Suc (Suc (Suc 0)))))))"
    using assms by simp
  then show ?thesis
    by (auto simp: length_Suc_conv)
qed

lemma store_bits_eq:
  assumes "length buf = 64"
  shows "store_bits buf bits = take 56 buf @ be64 bits"
proof -
  define p where "p = take 56 buf"
  have lp: "length p = 56" using assms by (simp add: p_def)
  have "length (drop 56 buf) = 8" using assms by simp
  from length8D [OF this]
  obtain q0 q1 q2 q3 q4 q5 q6 q7 where q: "drop 56 buf = [q0, q1, q2, q3, q4, q5, q6, q7]"
    by blast
  have buf: "buf = p @ [q0, q1, q2, q3, q4, q5, q6, q7]"
    unfolding p_def q [symmetric] by simp
  show ?thesis
    unfolding store_bits_def be64_def p_def [symmetric]
    by (subst buf) (simp add: list_update_append lp)
qed


lemma marked_buffer:
  assumes "length rest = r" "r < 64"
  shows "(if r \<noteq> 0 then take r rest @ drop r (replicate 64 0) else replicate 64 (0::byte))[r := 0x80]
           = rest @ 0x80 # replicate (63 - r) 0"
proof -
  have "replicate (64 - r) (0::byte) = 0 # replicate (63 - r) 0"
    using assms(2) by (cases "64 - r") (simp_all add: Suc_diff_Suc)
  moreover have "rest = []" if "r = 0" using that assms by simp
  ultimately show ?thesis
    using assms by (auto simp: list_update_append)
qed

lemma sha256_run_eq:
  "sha256_run data =
     (compress_all h_init (blocks_from data 0 (length data div 64) @ tail_blocks data),
      blocks_from data 0 (length data div 64) @ tail_blocks data)"
proof -
  define r where "r = length data mod 64"
  define rest where "rest = drop (length data - r) data"
  define bits where "bits = (of_nat (length data) * 8 :: u64)"
  define buf where "buf = rest @ 0x80 # replicate (63 - r) 0"
  define T where "T = blocks_from data 0 (length data div 64)"
  define H where "H = compress_all h_init T"
  have r: "r < 64" by (simp add: r_def)
  have off: "64 * (length data div 64) = length data - r"
    unfolding r_def by (metis minus_mod_eq_mult_div)
  have rem: "length data - (length data - r) = r"
    unfolding r_def by (simp add: mod_le_divisor)
  have lrest: "length rest = r"
    unfolding rest_def using rem by simp
  have lbuf: "length buf = 64"
    using r by (simp add: buf_def lrest)
  have fb: "full_blocks data h_init 0 [] = (H, length data - r, T)"
    unfolding full_blocks_eq H_def T_def using off by simp
  have mark: "(if r \<noteq> 0 then take r (drop (length data - r) data) @ drop r (replicate 64 0)
               else replicate 64 0)[r := 0x80] = buf"
    unfolding buf_def rest_def [symmetric] by (rule marked_buffer [OF lrest r])
  have small: "take 56 buf = rest @ 0x80 # replicate (55 - r) 0" if "r < 56"
  proof -
    have "replicate (63 - r) (0::byte) = replicate (55 - r) 0 @ replicate 8 0"
      using that by (simp add: replicate_add [symmetric])
    moreover have "56 - r = Suc (55 - r)"
      using that by simp
    ultimately show ?thesis by (simp add: buf_def lrest)
  qed
  have run: "sha256_run data =
      (case (if 56 \<le> r then (compress H (rewrite_words buf) 0, replicate 64 0, T @ [rewrite_words buf])
             else (H, buf, T)) of
         (h, b, tr) \<Rightarrow> (compress h (store_bits b bits) 0, tr @ [store_bits b bits]))"
    unfolding sha256_run_def fb Let_def prod.case rem mark bits_def ..
  have tb: "tail_blocks data =
      (if 56 \<le> r then [buf, replicate 56 0 @ be64 bits] else [take 56 buf @ be64 bits])"
    using small
    by (simp add: tail_blocks_def Let_def r_def [symmetric] rest_def [symmetric] bits_def buf_def)
  have l0: "length (replicate 64 (0::byte)) = 64" by simp
  have t0: "take 56 (replicate 64 (0::byte)) = replicate 56 0" by simp
  show ?thesis
  proof (cases "56 \<le> r")
    case True
    show ?thesis
      unfolding run tb T_def [symmetric]
      by (simp only: True if_True prod.case rewrite_words_id [OF lbuf] store_bits_eq [OF l0] t0)
         (simp add: H_def compress_all_def)
  next
    case False
    show ?thesis
      unfolding run tb T_def [symmetric]
      by (simp only: False if_False prod.case store_bits_eq [OF lbuf])
         (simp add: H_def compress_all_def)
  qed
qed


lemma concat_blocks_from:
  "concat (blocks_from data offset n) = take (64 * n) (drop offset data)"
proof (induction n arbitrary: offset)
  case 0
  show ?case by simp
next
  case (Suc n)
  have "take 64 (drop offset data) @ take (64 * n) (drop (offset + 64) data) =
        take (64 + 64 * n) (drop offset data)"
    by (simp add: take_add add.commute)
  then show ?case
    unfolding blocks_from_Suc by (simp add: Suc.IH)
qed

lemma length_blocks_from:
  assumes "offset + 64 * n \<le> length data" "b \<in> set (blocks_from data offset n)"
  shows "length b = 64"
proof -
  from assms(2) obtain i where i: "i < n" "b = take 64 (drop (offset + 64 * i) data)"
    by auto
  have "64 * i + 64 \<le> 64 * n" using i(1) by simp
  with assms(1) have "offset + 64 * i + 64 \<le> length data" by simp
  then show ?thesis unfolding i(2) by simp
qed

lemma pad_zeros_small: "len mod 64 < 56 \<Longrightarrow> pad_zeros len = 55 - len mod 64"
proof -
  assume a: "len mod 64 < 56"
  then have e: "119 - len mod 64 = 64 + (55 - len mod 64)" by linarith
  have "(64 + (55 - len mod 64)) mod 64 = 55 - len mod 64" by simp
  then show ?thesis unfolding pad_zeros_def e .
qed

lemma pad_zeros_large: "56 \<le> len mod 64 \<Longrightarrow> pad_zeros len = 119 - len mod 64"
proof -
  assume a: "56 \<le> len mod 64"
  have "len mod 64 < 64" by simp
  with a have "119 - len mod 64 < 64" by linarith
  then show ?thesis by (simp add: pad_zeros_def)
qed

lemma pad_zeros_props: "pad_zeros len < 64 \<and> (len + 1 + pad_zeros len) mod 64 = 56"
proof -
  have lt: "len mod 64 < 64" by simp
  have "(len mod 64 + 1 + pad_zeros len) mod 64 = 56"
  proof (cases "len mod 64 < 56")
    case True
    then show ?thesis by (simp add: pad_zeros_small)
  next
    case False
    then have "len mod 64 + 1 + pad_zeros len = 120"
      using lt by (simp add: pad_zeros_large)
    then show ?thesis by simp
  qed
  then have "(len + 1 + pad_zeros len) mod 64 = 56"
    by (metis (no_types, lifting) mod_add_left_eq add.assoc)
  then show ?thesis by (simp add: pad_zeros_def)
qed

lemma concat_tail_blocks:
  "concat (tail_blocks data) =
     drop (length data - length data mod 64) data @ [0x80] @
     replicate (pad_zeros (length data)) 0 @ be64 (of_nat (length data) * 8)"
proof (cases "56 \<le> length data mod 64")
  case True
  have "length data mod 64 < 64" by simp
  with True have "63 - length data mod 64 + 56 = 119 - length data mod 64" by linarith
  then have "replicate (63 - length data mod 64) (0::byte) @ replicate 56 0 =
             replicate (119 - length data mod 64) 0"
    by (simp add: replicate_add [symmetric] del: replicate_add)
  then show ?thesis
    using True by (simp add: tail_blocks_def Let_def pad_zeros_large)
next
  case False
  then show ?thesis
    by (simp add: tail_blocks_def Let_def pad_zeros_small)
qed

lemma length_tail_blocks:
  assumes "b \<in> set (tail_blocks data)"
  shows "length b = 64"
proof -
  have r: "length data mod 64 < 64" by simp
  have l: "length (drop (length data - length data mod 64) data) = length data mod 64"
    by (simp add: mod_le_divisor)
  have l8: "length (be64 x) = 8" for x by (simp add: be64_def)
  show ?thesis
  proof (cases "56 \<le> length data mod 64")
    case True
    with assms r l show ?thesis
      by (auto simp: tail_blocks_def Let_def l8)
  next
    case False
    with assms r l show ?thesis
      by (auto simp: tail_blocks_def Let_def l8)
  qed
qed

lemma trace_concat:
  "concat (snd (sha256_run data)) = sha256_padded data"
proof -
  have "take (64 * (length data div 64)) data = take (length data - length data mod 64) data"
    by (metis minus_mod_eq_mult_div)
  then show ?thesis
    unfolding sha256_run_eq snd_conv concat_append concat_blocks_from concat_tail_blocks
      sha256_padded_def
    by simp
qed

lemma trace_lengths:
  assumes "b \<in> set (snd (sha256_run data))"
  shows "length b = 64"
proof -
  have "0 + 64 * (length data div 64) \<le> length data" by simp
  note full = length_blocks_from [OF this]
  from assms consider "b \<in> set (blocks_from data 0 (length data div 64))"
    | "b \<in> set (tail_blocks data)"
    unfolding sha256_run_eq snd_conv set_append Un_iff by blast
  then show ?thesis
    by cases (rule full, assumption, rule length_tail_blocks, assumption)
qed

lemma trace_count:
  "length (snd (sha256_run data)) =
     length data div 64 + (if length data mod 64 < 56 then 1 else 2)"
  unfolding sha256_run_eq snd_conv by (simp add: tail_blocks_def Let_def)

lemma blocks64_concat:
  assumes "\<forall>b \<in> set bs. length b = 64"
  shows "blocks64 (concat bs) = bs"
proof -
  have len: "length (concat bs) = 64 * length bs" if "\<forall>b \<in> set bs. length b = 64" for bs :: "byte list list"
    using that by (induction bs) simp_all
  have "blocks_from (concat bs) 0 (length bs) = bs" if "\<forall>b \<in> set bs. length b = 64" for bs :: "byte list list"
    using that
  proof (induction bs)
    case Nil
    show ?case by simp
  next
    case (Cons b bs)
    then have b: "length b = 64" and bs: "\<forall>b \<in> set bs. length b = 64" by simp_all
    have "blocks_from (concat (b # bs)) 0 (Suc (length bs)) =
          take 64 (b @ concat bs) # blocks_from (b @ concat bs) 64 (length bs)"
      unfolding blocks_from_Suc by simp
    also have "blocks_from (b @ concat bs) 64 (length bs) = blocks_from (concat bs) 0 (length bs)"
      using b by (simp add: drop_append add.commute)
    finally show ?case using b Cons.IH [OF bs] by simp
  qed
  with assms len [OF assms] show ?thesis
    by (simp add: blocks64_def)
qed

lemma sha256_blocks:
  "snd (sha256_run data) = blocks64 (sha256_padded data)"
  using blocks64_concat [of "snd (sha256_run data)"] trace_lengths [of _ data]
  by (simp add: trace_concat)

lemma sha256_standard:
  "sha256 data = compress_all h_init (blocks64 (sha256_padded data))"
  unfolding sha256_blocks [symmetric] by (simp add: sha256_def sha256_run_eq)

lemma least_pad:
  fixes n p z :: nat
  assumes p: "p < 64" and c: "(n + 1 + p) mod 64 = 56" and z: "z < p"
  shows "(n + 1 + z) mod 64 \<noteq> 56"
proof
  assume e: "(n + 1 + z) mod 64 = 56"
  define d where "d = p - z"
  have d: "0 < d" "d < 64" using z p by (simp_all add: d_def)
  have "(n + 1 + p) mod 64 = ((n + 1 + z) + d) mod 64" using z by (simp add: d_def)
  also have "\<dots> = ((n + 1 + z) mod 64 + d) mod 64" by (simp add: mod_add_left_eq)
  also have "\<dots> = (56 + d) mod 64" by (simp only: e)
  finally have m: "(56 + d) mod 64 = 56" using c by simp
  show False
  proof (cases "d < 8")
    case True
    then have "(56 + d) mod 64 = 56 + d" by simp
    with m d show False by simp
  next
    case False
    then have "56 + d = 64 + (d - 8)" by simp
    then have "(56 + d) mod 64 = (64 + (d - 8)) mod 64" by (rule arg_cong)
    also have "\<dots> = (d - 8) mod 64" by (rule mod_add_self1)
    also have "\<dots> = d - 8" using d by (intro mod_less) simp
    finally show False using m d by linarith
  qed
qed

section \<open>The loop of \<open>-app_bin\<close>\<close>

lemma disjoint_bytes:
  fixes a b c d :: byte
  shows "push_bit 16 (ucast c :: u32) AND push_bit 24 (ucast d) = 0"
    and "push_bit 8 (ucast b :: u32) AND (push_bit 16 (ucast c) OR push_bit 24 (ucast d)) = 0"
    and "(ucast a :: u32) AND (push_bit 8 (ucast b) OR push_bit 16 (ucast c) OR push_bit 24 (ucast d)) = 0"
  by (rule bit_word_eqI; auto simp: bit_simps dest: bit_imp_le_length)+

lemma word_of_buffer_arith:
  "word_of_buffer [a, b, c, d] =
     of_nat (unat a + 256 * unat b + 65536 * unat c + 16777216 * unat d)"
proof -
  have "word_of_buffer [a, b, c, d] =
      ucast a + (push_bit 8 (ucast b) + (push_bit 16 (ucast c) + push_bit 24 (ucast d)))"
    unfolding word_of_buffer_def
    by (simp add: disjunctive_add_eq_or disjoint_bytes)
  also have "\<dots> = of_nat (unat a + 256 * unat b + 65536 * unat c + 16777216 * unat d)"
    by (simp add: push_bit_eq_mult)
  finally show ?thesis .
qed

lemma fputc_end: "fputc c (bs, length bs) = (bs @ [c], length (bs @ [c]))"
  by simp

lemma length4D:
  assumes "length g = 4"
  shows "\<exists>a b c d. g = [a, b, c, d]"
proof -
  have "length g = Suc (Suc (Suc (Suc 0)))" using assms by simp
  then show ?thesis by (auto simp: length_Suc_conv)
qed

lemma fputc_group:
  assumes "length g = 4"
  shows "fputc (g ! 3) (fputc (g ! 2) (fputc (g ! 1) (fputc (g ! 0) (bs, length bs)))) =
         (bs @ g, length (bs @ g))"
proof -
  from length4D [OF assms] obtain a b c d where "g = [a, b, c, d]" by blast
  then show ?thesis by simp
qed

lemma le_words_group:
  assumes "length g = 4"
  shows "le_words (g @ rest) = word_of_buffer g # le_words rest"
proof -
  from length4D [OF assms] obtain a b c d where "g = [a, b, c, d]" by blast
  then show ?thesis by (simp add: word_of_buffer_arith le32_def)
qed

lemma fread_group:
  assumes "length buffer = 4" "rest \<noteq> []"
  shows "fread 4 buffer rest =
           (min 4 (length rest),
            (if length rest < 4 then rest @ drop (length rest) buffer else take 4 rest),
            drop 4 rest)"
    and "min 4 (length rest) \<noteq> 0"
    and "length (if length rest < 4 then rest @ drop (length rest) buffer else take 4 rest) = 4"
  using assms by (auto simp: fread_def Let_def min_def)

lemma fread_eof: "fread n buffer [] = (0, buffer, [])"
  by (simp add: fread_def)

lemma effective_length4:
  assumes "length buffer = 4"
  shows "length (effective buffer rest) = 4 * ((length rest + 3) div 4)"
  using assms
proof (induction buffer rest rule: effective.induct)
  case (1 buffer rest)
  show ?case
  proof (cases "rest = []")
    case True
    then show ?thesis by (subst effective.simps) simp
  next
    case ne: False
    show ?thesis
    proof (cases "length rest < 4")
      case True
      with ne have "0 < length rest" by simp
      with True have "(length rest + 3) div 4 = 1" by presburger
      with True ne 1 show ?thesis by (subst effective.simps) simp
    next
      case False
      then have "length rest = (length rest - 4) + 4" by simp
      then have "(length rest + 3) div 4 = Suc ((length rest - 4 + 3) div 4)"
        by (metis add.commute add.left_commute div_add_self1 zero_neq_numeral Suc_eq_plus1 add.assoc)
      moreover have "length (effective (take 4 rest) (drop 4 rest)) = 4 * ((length (drop 4 rest) + 3) div 4)"
        using False ne by (intro "1.IH") simp_all
      ultimately show ?thesis using False ne by (subst effective.simps) simp
    qed
  qed
qed

lemma effective_step:
  assumes "length buffer = 4" "rest \<noteq> []"
  shows "effective buffer rest = group buffer rest @ effective (group buffer rest) (drop 4 rest)"
proof (cases "length rest < 4")
  case True
  then have "drop 4 rest = []" by simp
  then have "effective (group buffer rest) (drop 4 rest) = []"
    by (subst effective.simps) simp
  with True assms show ?thesis
    by (subst effective.simps) (simp add: group_def)
next
  case False
  with assms show ?thesis
    by (subst effective.simps) (simp add: group_def)
qed

lemma app_bin_loop_step:
  assumes "length buffer = 4" "rest \<noteq> []"
  shows "app_bin_loop rest buffer checksum sz (bs, length bs) =
         app_bin_loop (drop 4 rest) (group buffer rest)
           (checksum + word_of_buffer (group buffer rest)) (sz + 4)
           (bs @ group buffer rest, length (bs @ group buffer rest))"
proof -
  note fr = fread_group [OF assms, folded group_def]
  show ?thesis
    by (subst app_bin_loop.simps)
       (simp only: fr(1) Let_def prod.case fr(2) if_True not_False_eq_True fputc_group [OF fr(3)])
qed

lemma app_bin_loop_eq:
  assumes "length buffer = 4"
  shows "\<exists>buffer'. app_bin_loop rest buffer checksum sz (bs, length bs) =
     (buffer', checksum + sum_list (le_words (effective buffer rest)),
      sz + of_nat (length (effective buffer rest)),
      (bs @ effective buffer rest, length (bs @ effective buffer rest)))"
  using assms
proof (induction "length rest" arbitrary: rest buffer checksum sz bs rule: less_induct)
  case less
  show ?case
  proof (cases "rest = []")
    case True
    then show ?thesis
      by (subst app_bin_loop.simps, subst (1 2 3 4) effective.simps) (simp add: fread_eof)
  next
    case False
    define g where "g = group buffer rest"
    note fr = fread_group [OF less.prems False, folded group_def, folded g_def]
    note eff = effective_step [OF less.prems False, folded g_def]
    note step = app_bin_loop_step [OF less.prems False, folded g_def]
    have "length (drop 4 rest) < length rest" using False by simp
    from less.hyps [OF this fr(3), of "checksum + word_of_buffer g" "sz + 4" "bs @ g"]
    obtain buffer' where ih: "app_bin_loop (drop 4 rest) g (checksum + word_of_buffer g) (sz + 4)
        (bs @ g, length (bs @ g)) =
      (buffer', checksum + word_of_buffer g + sum_list (le_words (effective g (drop 4 rest))),
       sz + 4 + of_nat (length (effective g (drop 4 rest))),
       (bs @ g) @ effective g (drop 4 rest), length ((bs @ g) @ effective g (drop 4 rest)))"
      by blast
    show ?thesis
      unfolding step ih eff le_words_group [OF fr(3)]
      by (simp add: fr(3) add.assoc)
  qed
qed

lemma effective_aligned:
  assumes "length rest mod 4 = 0"
  shows "effective buffer rest = rest"
  using assms
proof (induction "length rest" arbitrary: rest buffer rule: less_induct)
  case less
  show ?case
  proof (cases "rest = []")
    case True
    then show ?thesis by (subst effective.simps) simp
  next
    case False
    with less.prems have ge: "4 \<le> length rest"
      by (metis length_0_conv mod_less not_less)
    then have "length (drop 4 rest) mod 4 = 0"
      using less.prems by (simp add: mod_diff_eq [symmetric]) (metis le_mod_geq)
    moreover have "length (drop 4 rest) < length rest" using False by simp
    ultimately have "effective (take 4 rest) (drop 4 rest) = drop 4 rest"
      by (rule less.hyps [rotated])
    with ge False show ?thesis
      by (subst effective.simps) simp
  qed
qed


lemma byte_mask: "(ucast (drop_bit n x AND 0xFF) :: byte) = ucast (drop_bit n (x :: u32))"
proof -
  have m: "(0xFF :: u32) = mask 8"
    by (simp add: mask_eq_exp_minus_1)
  have "(ucast (drop_bit n x AND mask 8) :: byte) = ucast (drop_bit n x)"
    by (rule bit_word_eqI) (auto simp: bit_simps)
  then show ?thesis
    unfolding m .
qed

lemma put_word_over:
  assumes "pos + 4 \<le> length bs"
  shows "put_word x (bs, pos) =
         (bs[pos := bytes_of_word x ! 0, pos + 1 := bytes_of_word x ! 1,
             pos + 2 := bytes_of_word x ! 2, pos + 3 := bytes_of_word x ! 3], pos + 4)"
  using assms
  by (simp add: put_word_def bytes_of_word_def byte_mask byte_mask [of 0, simplified]
        numeral_3_eq_3)

lemma reserve_header: "(fputc 0 ^^ 12) ([], 0) = (replicate 12 0, length (replicate 12 (0::byte)))"
  by (simp add: eval_nat_numeral)

lemma header_over:
  fixes a b c :: "byte list"
  assumes "length a = 4" "length b = 4" "length c = 4"
  shows "(replicate 12 0 @ E)
           [0 := a ! 0, 0 + 1 := a ! 1, 0 + 2 := a ! 2, 0 + 3 := a ! 3,
            0 + 4 := b ! 0, 0 + 4 + 1 := b ! 1, 0 + 4 + 2 := b ! 2, 0 + 4 + 3 := b ! 3,
            0 + 4 + 4 := c ! 0, 0 + 4 + 4 + 1 := c ! 1, 0 + 4 + 4 + 2 := c ! 2,
            0 + 4 + 4 + 3 := c ! 3] = a @ b @ c @ E"
proof -
  from length4D [OF assms(1)] obtain a0 a1 a2 a3 where a: "a = [a0, a1, a2, a3]" by blast
  from length4D [OF assms(2)] obtain b0 b1 b2 b3 where b: "b = [b0, b1, b2, b3]" by blast
  from length4D [OF assms(3)] obtain c0 c1 c2 c3 where c: "c = [c0, c1, c2, c3]" by blast
  have r: "replicate 12 (0::byte) = [0, 0, 0, 0, 0, 0, 0, 0, 0, 0, 0, 0]"
    by (simp add: eval_nat_numeral)
  show ?thesis
    unfolding a b c r by (simp add: eval_nat_numeral)
qed

lemma length_bytes_of_word: "length (bytes_of_word x) = 4"
  by (simp add: bytes_of_word_def)

lemma app_bin_eq:
  assumes "length buffer = 4"
  shows "app_bin content buffer ([], 0) =
     (of_nat (length (effective buffer content)),
      - sum_list (le_words (effective buffer content)),
      (bytes_of_word signature @ bytes_of_word (of_nat (length (effective buffer content))) @
       bytes_of_word (- sum_list (le_words (effective buffer content))) @
       effective buffer content, 12))"
proof -
  define E where "E = effective buffer content"
  from app_bin_loop_eq [OF assms, of content 0 0 "replicate 12 0"]
  obtain buffer' where loop: "app_bin_loop content buffer 0 0 (replicate 12 0, length (replicate 12 (0::byte))) =
      (buffer', sum_list (le_words E), of_nat (length E), (replicate 12 0 @ E, length (replicate 12 0 @ E)))"
    unfolding E_def by auto
  have neg: "NOT (sum_list (le_words E)) + 1 = - sum_list (le_words E)"
    by (simp add: minus_eq_not_plus_1)
  have l: "0 + 4 \<le> length (replicate 12 (0::byte) @ E)" "0 + 4 + 4 \<le> length (xs[i := v])"
      if "12 \<le> length xs" for xs :: "byte list" and i v
    using that by simp_all
  show ?thesis
    unfolding app_bin_def reserve_header Let_def loop prod.case rewind.simps neg E_def [symmetric]
    apply (subst put_word_over)
     apply simp
    apply (subst put_word_over)
     apply simp
    apply (subst put_word_over)
     apply simp
    apply (simp only: prod.inject simp_thms
        header_over [OF length_bytes_of_word length_bytes_of_word length_bytes_of_word])
    done
qed

lemma effective_short:
  assumes "rest \<noteq> []" "length rest < 4"
  shows "effective buffer rest = rest @ drop (length rest) buffer"
  using assms by (subst effective.simps) simp

lemma effective_long:
  assumes "4 \<le> length rest"
  shows "effective buffer rest =
           rest @ (if length rest mod 4 = 0 then []
                   else drop (length rest mod 4) (take 4 (drop (4 * (length rest div 4 - 1)) rest)))"
  using assms
proof (induction "length rest" arbitrary: rest buffer rule: less_induct)
  case less
  define r where "r = drop 4 rest"
  have ne: "rest \<noteq> []" using less.prems by auto
  have lr: "length rest = length r + 4" using less.prems by (simp add: r_def)
  have m: "length rest mod 4 = length r mod 4" unfolding lr by simp
  have q: "length rest div 4 = Suc (length r div 4)" unfolding lr by simp
  have step: "effective buffer rest = take 4 rest @ effective (take 4 rest) r"
    using less.prems ne by (subst effective.simps) (simp add: r_def)
  have rest: "rest = take 4 rest @ r" by (simp add: r_def)
  have tr: "take 4 rest @ r @ X = rest @ X" for X
    unfolding r_def by (metis append.assoc append_take_drop_id)
  show ?case
  proof (cases "length r < 4")
    case short: True
    show ?thesis
    proof (cases "r = []")
      case True
      then have "effective (take 4 rest) r = []" by (subst effective.simps) simp
      with True step m tr [of "[]"] show ?thesis by simp
    next
      case False
      then have e: "effective (take 4 rest) r = r @ drop (length r) (take 4 rest)"
        using short by (rule effective_short)
      have m': "length rest mod 4 = length r" using m short by simp
      have q': "length rest div 4 - 1 = 0" using q short by simp
      have "length r \<noteq> 0" using False by simp
      then show ?thesis
        unfolding step e tr m' q' by simp
    qed
  next
    case False
    then have 3: "4 \<le> length r" by simp
    have "length r < length rest" unfolding lr by simp
    from less.hyps [OF this 3, of "take 4 rest"]
    have e: "effective (take 4 rest) r =
        r @ (if length r mod 4 = 0 then []
             else drop (length r mod 4) (take 4 (drop (4 * (length r div 4 - 1)) r)))" .
    from 3 have "0 < length r div 4" by (simp add: div_greater_zero_iff)
    then have "4 * (length rest div 4 - 1) = 4 + 4 * (length r div 4 - 1)"
      unfolding q by simp
    then have d: "drop (4 * (length rest div 4 - 1)) rest = drop (4 * (length r div 4 - 1)) r"
      unfolding r_def by (simp add: add.commute)
    show ?thesis
      unfolding step e m d tr ..
  qed
qed

lemma le_words_append:
  assumes "length xs mod 4 = 0"
  shows "le_words (xs @ ys) = le_words xs @ le_words ys"
  using assms
proof (induction xs rule: le_words.induct)
  case (1 a b c d rest)
  then have "length rest mod 4 = 0" by (simp add: mod_Suc split: if_splits)
  with 1 show ?case by simp
qed (simp_all add: mod_Suc)

lemma of_nat_mod4: "(of_nat L :: u32) mod 4 = of_nat (L mod 4)"
proof -
  have "unat ((of_nat L :: u32) mod 4) = L mod 2 ^ 32 mod 4"
    by (simp add: unat_mod unat_of_nat take_bit_eq_mod)
  also have "\<dots> = L mod 4"
    by (rule mod_mod_cancel) simp
  finally have "unat ((of_nat L :: u32) mod 4) = unat (of_nat (L mod 4) :: u32)"
    by (simp add: unat_of_nat take_bit_eq_mod)
  then show ?thesis by (simp only: word_unat_eq_iff)
qed

lemma unat_of_nat_u32: "L < 2 ^ 32 \<Longrightarrow> unat (of_nat L :: u32) = L"
  by (simp add: unat_of_nat take_bit_eq_mod)

lemma of_nat_u32_eq0:
  assumes "L < 2 ^ 32"
  shows "((of_nat L :: u32) = 0) = (L = 0)"
proof -
  have "((of_nat L :: u32) = 0) = (unat (of_nat L :: u32) = 0)"
    by (simp only: unat_eq_0)
  then show ?thesis
    by (simp only: unat_of_nat_u32 [OF assms])
qed

lemma main_app_bin:
  assumes "length argv = 4 \<or> length argv = 5" "argv ! 1 = ''-app_bin''"
    "files w (argv ! 2) = Some b" "(of_nat (length b) :: u32) \<noteq> 0" "writable w (argv ! 3)"
  shows "main argv w =
     \<lparr>status = Exit 0,
      stdout = (if length b mod 4 \<noteq> 0
                then [''WARNING - image size is not a multiple of 4 bytes!'' @ nl] else []),
      fs = (files w)(argv ! 3 \<mapsto> fst (snd (snd (app_bin b (buffer0 w) ([], 0)))))\<rparr>"
proof -
  have op: "parse_operation (argv ! 1) = Some OP_APP_BIN"
    unfolding assms(2) by (simp add: parse_operation_def)
  have "length b mod 4 < 2 ^ 32"
    by (rule less_trans [of _ 4]) simp_all
  from of_nat_u32_eq0 [OF this]
  have w: "((of_nat (length b) :: u32) mod 4 \<noteq> 0) = (length b mod 4 \<noteq> 0)"
    by (simp add: of_nat_mod4)
  show ?thesis
    unfolding main_def op assms(3)
    using assms(1,4,5) by (auto simp: Let_def w)
qed

lemma bytes_of_signature: "bytes_of_word signature = [0xFE, 0xCA, 0x88, 0x47]"
  by (simp add: bytes_of_word_def signature_def)

lemma app_bin_aligned:
  assumes "length b mod 4 = 0" "length buffer = 4"
  shows "app_bin b buffer ([], 0) =
     (of_nat (length b), - sum_list (le_words b),
      ([0xFE, 0xCA, 0x88, 0x47] @ bytes_of_word (of_nat (length b)) @
       bytes_of_word (- sum_list (le_words b)) @ b, 12))"
  unfolding app_bin_eq [OF assms(2)] effective_aligned [OF assms(1)] bytes_of_signature ..

section \<open>The secure-boot record of \<open>-bld_vhd\<close>\<close>

lemma fputs_end:
  "fputs s (bs, length bs) = (bs @ bytes_of_string s, length (bs @ bytes_of_string s))"
proof (induction s arbitrary: bs)
  case Nil
  show ?case by (simp add: fputs_def bytes_of_string_def)
next
  case (Cons c s)
  have "fputs (c # s) (bs, length bs) = fputs s (bs @ [byte_of_char c], length (bs @ [byte_of_char c]))"
    by (simp add: fputs_def)
  then show ?case
    unfolding Cons.IH by (simp add: bytes_of_string_def)
qed

lemma length_hex8: "length (hex8 x) = 8"
  by (simp add: hex8_def)

lemma snprintf_short: "length s < n \<Longrightarrow> snprintf n s = s"
  by (simp add: snprintf_def)

lemma snprintf_lines:
  "snprintf 1024 (''x'' @ dq @ hex8 x @ dq @ '','' @ nl) = sig_line x"
  "snprintf 1024 (''x'' @ dq @ hex8 x @ dq @ '' -- Bootloader code size'' @ nl) = size_line x"
  "snprintf 1024 ('');'' @ nl) = '');'' @ nl"
  "snprintf 1024 (nl @ ''end neorv32_bootloader_image;'' @ nl) = nl @ ''end neorv32_bootloader_image;'' @ nl"
  "snprintf 1024 (''constant bootloader_init_secure_boot_info_c : mem32_t := ('' @ nl) =
     ''constant bootloader_init_secure_boot_info_c : mem32_t := ('' @ nl"
  by (simp_all add: snprintf_def sig_line_def size_line_def length_hex8 dq_def nl_def)

lemma sig_word_eq:
  assumes "kk < sig_len"
  shows "sig_word sig sig_len kk 0 0 =
     word_of_buffer [if kk < sig_len then sig ! kk else 0,
                     if kk + 1 < sig_len then sig ! (kk + 1) else 0,
                     if kk + 2 < sig_len then sig ! (kk + 2) else 0,
                     if kk + 3 < sig_len then sig ! (kk + 3) else 0]"
proof -
  have s: "sig_word sig sig_len kk 4 x = x" for x
    by (subst sig_word.simps) simp
  have s3: "sig_word sig sig_len kk 3 x =
      (if kk + 3 < sig_len then x OR push_bit 24 (ucast (sig ! (kk + 3))) else x)" for x
    by (subst sig_word.simps) (simp add: s)
  have s2: "sig_word sig sig_len kk 2 x =
      (if kk + 2 < sig_len
       then sig_word sig sig_len kk 3 (x OR push_bit 16 (ucast (sig ! (kk + 2)))) else x)" for x
    by (subst sig_word.simps) (simp add: numeral_3_eq_3 numeral_2_eq_2)
  have s1: "sig_word sig sig_len kk 1 x =
      (if kk + 1 < sig_len
       then sig_word sig sig_len kk 2 (x OR push_bit 8 (ucast (sig ! (kk + 1)))) else x)" for x
    by (subst sig_word.simps) (simp add: numeral_2_eq_2)
  have s0: "sig_word sig sig_len kk 0 x =
      (if kk < sig_len then sig_word sig sig_len kk 1 (x OR ucast (sig ! kk)) else x)" for x
    by (subst sig_word.simps) simp
  show ?thesis
    unfolding s0 s1 s2 s3 word_of_buffer_def
    by (simp add: or.assoc)
qed

lemma sig_loop_eq:
  "sig_loop sig sig_len (4 * j) (bs, length bs) =
     (bs @ bytes_of_string (concat (map (\<lambda>i. sig_line (sig_word_at sig sig_len i))
                                       [j..<(sig_len + 3) div 4])),
      length (bs @ bytes_of_string (concat (map (\<lambda>i. sig_line (sig_word_at sig sig_len i))
                                       [j..<(sig_len + 3) div 4]))))"
proof (induction "(sig_len + 3) div 4 - j" arbitrary: j bs)
  case 0
  then have "(sig_len + 3) div 4 \<le> j" by simp
  then have n: "\<not> 4 * j < sig_len" by linarith
  from 0 have "[j..<(sig_len + 3) div 4] = []" by simp
  with n show ?case
    by (subst sig_loop.simps) (simp add: bytes_of_string_def)
next
  case (Suc d)
  then have jn: "j < (sig_len + 3) div 4" by simp
  then have lt: "4 * j < sig_len" by linarith
  have d: "d = (sig_len + 3) div 4 - Suc j" using Suc(2) by simp
  have w: "sig_word sig sig_len (4 * j) 0 0 = sig_word_at sig sig_len j"
    unfolding sig_word_eq [OF lt] sig_word_at_def ..
  have e: "4 * j + 4 = 4 * Suc j" by simp
  have step: "sig_loop sig sig_len (4 * j) (bs, length bs) =
      sig_loop sig sig_len (4 * Suc j)
        (bs @ bytes_of_string (sig_line (sig_word_at sig sig_len j)),
         length (bs @ bytes_of_string (sig_line (sig_word_at sig sig_len j))))"
    by (subst sig_loop.simps) (simp only: lt if_True Let_def w snprintf_lines fputs_end e)
  have u: "[j..<(sig_len + 3) div 4] = j # [Suc j..<(sig_len + 3) div 4]"
    using jn by (rule upt_conv_Cons)
  show ?case
    unfolding step Suc(1) [OF d] u by (simp add: bytes_of_string_def)
qed

lemma byte_at_take:
  assumes "sig_len \<le> length sig"
  shows "byte_at (take sig_len sig) i = (if i < sig_len then sig ! i else 0)"
  using assms by (simp add: byte_at_def)

lemma sig_words_padded:
  assumes "sig_len \<le> length sig"
  shows "map (sig_word_at sig sig_len) [0..<(sig_len + 3) div 4] = padded_words (take sig_len sig)"
  using assms
  by (simp add: padded_words_def sig_word_at_def word_of_buffer_arith le32_def byte_at_take min_def)

lemma secure_boot_record_eq:
  assumes "sig_len \<le> length sig"
  shows "secure_boot_record sig sig_len input_words (bs, length bs) =
     (bs @ bytes_of_string (record_text (padded_words (take sig_len sig)) input_words),
      length (bs @ bytes_of_string (record_text (padded_words (take sig_len sig)) input_words)))"
proof -
  have "map (\<lambda>i. sig_line (sig_word_at sig sig_len i)) [0..<(sig_len + 3) div 4] =
        map sig_line (padded_words (take sig_len sig))"
    unfolding sig_words_padded [OF assms, symmetric] by (simp add: comp_def)
  then have l: "sig_loop sig sig_len 0 (bs, length bs) =
      (bs @ bytes_of_string (concat (map sig_line (padded_words (take sig_len sig)))),
       length (bs @ bytes_of_string (concat (map sig_line (padded_words (take sig_len sig))))))"
    using sig_loop_eq [of sig sig_len 0 bs] by (simp only: mult_0_right)
  show ?thesis
    unfolding secure_boot_record_def Let_def l snprintf_lines fputs_end
    by (simp add: record_text_def bytes_of_string_def)
qed

lemma bld_vhd_end_eq:
  "bld_vhd_end (bs, length bs) =
     (bs @ bytes_of_string ('');'' @ nl @ nl @ ''end neorv32_bootloader_image;'' @ nl),
      length (bs @ bytes_of_string ('');'' @ nl @ nl @ ''end neorv32_bootloader_image;'' @ nl)))"
  unfolding bld_vhd_end_def Let_def snprintf_lines fputs_end
  by (simp add: bytes_of_string_def)

lemma at_end_eq: "at_end out \<Longrightarrow> out = (fst out, length (fst out))"
  by (cases out) (simp add: at_end_def)

lemma at_end_fputs:
  assumes "at_end out"
  shows "at_end (fputs s out)"
proof -
  from at_end_eq [OF assms] obtain bs where "out = (bs, length bs)" by blast
  then show ?thesis by (simp only: fputs_end) (simp add: at_end_def)
qed

lemma vhd_loop_end:
  assumes "at_end out"
  shows "at_end (fst (snd (snd (snd (vhd_loop input_words i rest buffer out log)))))"
  using assms
proof (induction "length rest" arbitrary: rest i buffer out log rule: less_induct)
  case less
  show ?case
  proof (cases "i < input_words - 1 \<and> rest \<noteq> []")
    case True
    then have l: "length (drop (min 4 (length rest)) rest) < length rest" by (cases rest) simp_all
    from True have m: "min 4 (length rest) \<noteq> 0" by (cases rest) simp_all
    have step: "vhd_loop input_words i rest buffer out log =
        vhd_loop input_words (i + 1) (drop (min 4 (length rest)) rest)
          (take (min 4 (length rest)) rest @ drop (min 4 (length rest)) buffer)
          (fputs (snprintf 1024 (''x'' @ dq @ hex8 (word_of_buffer
             (take (min 4 (length rest)) rest @ drop (min 4 (length rest)) buffer)) @ dq @ '','' @ nl)) out)
          log"
      using True m by (subst vhd_loop.simps) (simp add: fread_def Let_def)
    show ?thesis
      unfolding step by (rule less.hyps [OF l at_end_fputs [OF less.prems]])
  next
    case False
    then show ?thesis
      using less.prems by (subst vhd_loop.simps) (auto simp: fread_def Let_def)
  qed
qed

lemma vhd_image_end:
  assumes "at_end out"
  shows "at_end (fst (vhd_image input_words content buffer out log))"
proof -
  obtain i' rest' buffer' out' log' where
    v: "vhd_loop input_words 0 content buffer out log = (i', rest', buffer', out', log')"
    by (metis prod_cases5)
  from vhd_loop_end [OF assms, of input_words 0 content buffer log]
  have "at_end out'" unfolding v by simp
  then show ?thesis
    unfolding vhd_image_def v Let_def prod.case
    by (auto simp: at_end_fputs split: prod.splits)
qed

lemma bld_vhd_image_end:
  "\<exists>pre. fst (bld_vhd_image argv ctime content buffer ([], 0) log) =
     (pre @ bytes_of_string (''constant bootloader_init_secure_boot_info_c : mem32_t := ('' @ nl),
      length (pre @ bytes_of_string (''constant bootloader_init_secure_boot_info_c : mem32_t := ('' @ nl)))"
proof -
  define o1 where "o1 = fputs (vhd_header ''BOOTROM'' ''bootloader'' argv ctime (of_nat (length content) + 260)) ([], 0)"
  have a1: "at_end o1"
    unfolding o1_def by (rule at_end_fputs) (simp add: at_end_def)
  obtain o2 log2 where
    v: "vhd_image (of_nat (length content) div 4) content buffer o1 log = (o2, log2)"
    by (cases "vhd_image (of_nat (length content) div 4) content buffer o1 log")
  from vhd_image_end [OF a1, of "of_nat (length content) div 4" content buffer log]
  have "at_end o2" unfolding v by simp
  from at_end_eq [OF this] obtain bs where o2: "o2 = (bs, length bs)" by blast
  have "fst (bld_vhd_image argv ctime content buffer ([], 0) log) =
      fputs (''constant bootloader_init_secure_boot_info_c : mem32_t := ('' @ nl)
        (fputs ('');'' @ nl) o2)"
    unfolding bld_vhd_image_def Let_def o1_def [symmetric] v prod.case snprintf_lines by simp
  then show ?thesis
    unfolding o2 fputs_end by blast
qed

lemma of_nat_div4:
  assumes "L < 2 ^ 32"
  shows "(of_nat L :: u32) div 4 = of_nat (L div 4)"
proof -
  have "L div 4 < 2 ^ 32" using assms by simp
  then have "unat (of_nat (L div 4) :: u32) = L div 4" by (rule unat_of_nat_u32)
  moreover have "unat ((of_nat L :: u32) div 4) = L div 4"
    by (simp add: unat_div unat_of_nat_u32 [OF assms])
  ultimately have "unat ((of_nat L :: u32) div 4) = unat (of_nat (L div 4) :: u32)" by simp
  then show ?thesis by (simp only: word_unat_eq_iff)
qed

lemma size_nonzero:
  assumes "b \<noteq> []" "length b < 2 ^ 32"
  shows "(of_nat (length b) :: u32) \<noteq> 0"
proof -
  from assms(1) have "unat (of_nat (length b) :: u32) \<noteq> 0"
    unfolding unat_of_nat_u32 [OF assms(2)] by simp
  then show ?thesis by (simp only: unat_eq_0 not_False_eq_True)
qed

lemma warning_iff: "((of_nat L :: u32) mod 4 \<noteq> 0) = (L mod 4 \<noteq> 0)"
proof -
  have "L mod 4 < 2 ^ 32"
    by (rule less_trans [of _ 4]) simp_all
  from of_nat_u32_eq0 [OF this] show ?thesis
    by (simp add: of_nat_mod4)
qed

lemma main_bld_vhd:
  assumes "length argv = 4 \<or> length argv = 5" "argv ! 1 = ''-bld_vhd''"
    "files w (argv ! 2) = Some b" "b \<noteq> []" "length b < 2 ^ 32" "writable w (argv ! 3)"
  shows "main argv w =
     bld_vhd argv w (compile_time (localtime w)) b ((files w)(argv ! 3 \<mapsto> []))
       (if length b mod 4 \<noteq> 0
        then [''WARNING - image size is not a multiple of 4 bytes!'' @ nl] else [])"
proof -
  have op: "parse_operation (argv ! 1) = Some OP_BLD_VHD"
    unfolding assms(2) by (simp add: parse_operation_def)
  note nz = size_nonzero [OF assms(4,5)]
  show ?thesis
    unfolding main_def op assms(3)
    using assms(1,6) nz by (auto simp: Let_def warning_iff)
qed

lemma fread_all: "fread (length b) (replicate (length b) 0) b = (length b, b, [])"
  by (simp add: fread_def)

lemma fread_signature:
  "fread 256 (replicate 256 0) sig_bytes =
     (min 256 (length sig_bytes),
      take 256 sig_bytes @ replicate (256 - min 256 (length sig_bytes)) 0,
      drop 256 sig_bytes)"
  by (simp add: fread_def Let_def min_def)

lemma bld_vhd_crash:
  assumes "b \<noteq> []" "length b < 2 ^ 32" "malloc_ok w" "writable w ''sha256.bin''"
    "signer w (digest_bytes (sha256 b)) = (ret, None)"
  shows "status (bld_vhd argv w ctime b fs0 log) = Crash"
    and "fs (bld_vhd argv w ctime b fs0 log) ''sha256.bin'' = Some (digest_bytes (sha256 b))"
proof -
  obtain out log' where i: "bld_vhd_image argv ctime b (buffer0 w) ([], 0) log = (out, log')"
    by (cases "bld_vhd_image argv ctime b (buffer0 w) ([], 0) log")
  show "status (bld_vhd argv w ctime b fs0 log) = Crash"
    and "fs (bld_vhd argv w ctime b fs0 log) ''sha256.bin'' = Some (digest_bytes (sha256 b))"
    unfolding bld_vhd_def Let_def i prod.case unat_of_nat_u32 [OF assms(2)] fread_all
    using assms(3,4,5) by (simp_all add: SIGNATURE_FILE_def)
qed

lemma bld_vhd_signed:
  assumes "b \<noteq> []" "length b < 2 ^ 32" "malloc_ok w" "writable w ''sha256.bin''"
    "signer w (digest_bytes (sha256 b)) = (ret, Some sig_bytes)"
  shows "status (bld_vhd argv w ctime b fs0 log) = Exit 0"
    and "\<exists>pre. fs (bld_vhd argv w ctime b fs0 log) (argv ! 3) =
           Some (pre @ bytes_of_string
             (''constant bootloader_init_secure_boot_info_c : mem32_t := ('' @ nl @
              record_text (padded_words (take 256 sig_bytes)) (of_nat (length b div 4)) @
              '');'' @ nl @ nl @ ''end neorv32_bootloader_image;'' @ nl))"
    and "argv ! 3 \<noteq> ''sha256.bin'' \<Longrightarrow> fs (bld_vhd argv w ctime b fs0 log) ''sha256.bin'' = None"
    and "argv ! 3 \<noteq> SIGNATURE_FILE \<Longrightarrow> fs (bld_vhd argv w ctime b fs0 log) SIGNATURE_FILE = None"
proof -
  obtain out log' where i: "bld_vhd_image argv ctime b (buffer0 w) ([], 0) log = (out, log')"
    by (cases "bld_vhd_image argv ctime b (buffer0 w) ([], 0) log")
  from bld_vhd_image_end [of argv ctime b "buffer0 w" log]
  obtain pre where out: "out =
     (pre @ bytes_of_string (''constant bootloader_init_secure_boot_info_c : mem32_t := ('' @ nl),
      length (pre @ bytes_of_string (''constant bootloader_init_secure_boot_info_c : mem32_t := ('' @ nl)))"
    unfolding i by auto
  define sig where "sig = take 256 sig_bytes @ replicate (256 - min 256 (length sig_bytes)) 0"
  define sig_len where "sig_len = min 256 (length sig_bytes)"
  have le: "sig_len \<le> length sig" by (simp add: sig_def sig_len_def)
  have tk: "take sig_len sig = take 256 sig_bytes" by (simp add: sig_def sig_len_def min_def)
  have lookup: "(fs0(''sha256.bin'' \<mapsto> digest_bytes (sha256 b), SIGNATURE_FILE \<mapsto> sig_bytes)) SIGNATURE_FILE
      = Some sig_bytes" by simp
  have r: "bld_vhd argv w ctime b fs0 log =
      \<lparr>status = Exit 0,
       stdout = (if ret \<noteq> 0 then log' @ [''OpenSSL signing failed!'' @ nl] else log'),
       fs = (fs0(''sha256.bin'' \<mapsto> digest_bytes (sha256 b), SIGNATURE_FILE \<mapsto> sig_bytes,
                 ''sha256.bin'' := None, SIGNATURE_FILE := None))
              (argv ! 3 \<mapsto> fst (bld_vhd_end (secure_boot_record sig sig_len (of_nat (length b) div 4) out)))\<rparr>"
    unfolding bld_vhd_def Let_def i prod.case unat_of_nat_u32 [OF assms(2)] fread_all
      fread_signature fst_conv snd_conv assms(5)
    using assms(3,4) by (simp add: sig_def sig_len_def)
  show "status (bld_vhd argv w ctime b fs0 log) = Exit 0"
    unfolding r by simp
  show "argv ! 3 \<noteq> ''sha256.bin'' \<Longrightarrow> fs (bld_vhd argv w ctime b fs0 log) ''sha256.bin'' = None"
    unfolding r by (simp add: SIGNATURE_FILE_def)
  show "argv ! 3 \<noteq> SIGNATURE_FILE \<Longrightarrow> fs (bld_vhd argv w ctime b fs0 log) SIGNATURE_FILE = None"
    unfolding r by simp
  have "fst (bld_vhd_end (secure_boot_record sig sig_len (of_nat (length b) div 4) out)) =
      pre @ bytes_of_string
             (''constant bootloader_init_secure_boot_info_c : mem32_t := ('' @ nl @
              record_text (padded_words (take 256 sig_bytes)) (of_nat (length b div 4)) @
              '');'' @ nl @ nl @ ''end neorv32_bootloader_image;'' @ nl)"
    unfolding out secure_boot_record_eq [OF le] bld_vhd_end_eq tk of_nat_div4 [OF assms(2)]
    by (simp add: bytes_of_string_def)
  then show "\<exists>pre. fs (bld_vhd argv w ctime b fs0 log) (argv ! 3) =
           Some (pre @ bytes_of_string
             (''constant bootloader_init_secure_boot_info_c : mem32_t := ('' @ nl @
              record_text (padded_words (take 256 sig_bytes)) (of_nat (length b div 4)) @
              '');'' @ nl @ nl @ ''end neorv32_bootloader_image;'' @ nl))"
    unfolding r by simp
qed

lemma count_lines_append: "count_lines (xs @ ys) = count_lines xs + count_lines ys"
  by (simp add: count_lines_def)

lemma hex_digit_line:
  assumes "d < 16"
  shows "byte_of_char (hex_digit d) \<noteq> 0x0A"
proof -
  have "hex_digit d \<in> set ''0123456789abcdef''"
    unfolding hex_digit_def by (rule nth_mem) (use assms in simp)
  moreover have "\<forall>c \<in> set ''0123456789abcdef''. byte_of_char c \<noteq> 0x0A"
    by (simp add: byte_of_char_def)
  ultimately show ?thesis by blast
qed

lemma nibble_less: "unat ((y :: u32) AND 0xF) < 16"
proof -
  have "unat (y AND 0xF) \<le> unat (0xF :: u32)"
    by (rule word_and_le1 [THEN word_le_nat_alt [THEN iffD1]])
  then show ?thesis by simp
qed

lemma count_lines_hex8: "count_lines (bytes_of_string (hex8 x)) = 0"
  by (simp add: count_lines_def bytes_of_string_def hex8_def hex_digit_line nibble_less)

lemma count_lines_sig_line: "count_lines (bytes_of_string (sig_line x)) = 1"
proof -
  have "bytes_of_string (sig_line x) =
      bytes_of_string (''x'' @ dq) @ bytes_of_string (hex8 x) @ bytes_of_string (dq @ '','' @ nl)"
    by (simp add: sig_line_def bytes_of_string_def)
  then show ?thesis
    unfolding count_lines_append count_lines_hex8
    by (simp add: count_lines_append count_lines_hex8)
       (simp add: count_lines_def bytes_of_string_def byte_of_char_def dq_def nl_def)
qed

lemma count_lines_size_line: "count_lines (bytes_of_string (size_line x)) = 1"
proof -
  have "bytes_of_string (size_line x) =
      bytes_of_string (''x'' @ dq) @ bytes_of_string (hex8 x) @
      bytes_of_string (dq @ '' -- Bootloader code size'' @ nl)"
    by (simp add: size_line_def bytes_of_string_def)
  then show ?thesis
    by (simp add: count_lines_append count_lines_hex8)
       (simp add: count_lines_def bytes_of_string_def byte_of_char_def dq_def nl_def)
qed

lemma count_lines_record:
  "count_lines (bytes_of_string (record_text ws x)) = length ws + 1"
proof -
  have "count_lines (bytes_of_string (concat (map sig_line ws))) = length ws"
  proof (induction ws)
    case Nil
    show ?case by (simp add: count_lines_def bytes_of_string_def)
  next
    case (Cons a ws)
    have "bytes_of_string (concat (map sig_line (a # ws))) =
        bytes_of_string (sig_line a) @ bytes_of_string (concat (map sig_line ws))"
      by (simp add: bytes_of_string_def)
    then show ?case
      by (simp only: count_lines_append count_lines_sig_line Cons.IH) simp
  qed
  moreover have "bytes_of_string (record_text ws x) =
      bytes_of_string (concat (map sig_line ws)) @ bytes_of_string (size_line x)"
    by (simp add: record_text_def bytes_of_string_def)
  ultimately show ?thesis
    by (simp only: count_lines_append count_lines_size_line)
qed

lemma length_padded_words: "length (padded_words bs) = (length bs + 3) div 4"
  by (simp add: padded_words_def)

section \<open>Claims about the hash\<close>

text \<open>
  C2. \<open>sha256\<close> computes the SHA-256 digest: for every byte sequence it is the
  compression function run from the initial hash value over the 64-byte blocks of the
  padded message, and for the empty sequence and for the three bytes of \<open>abc\<close> it
  returns the published digests
  \<open>e3b0c442 98fc1c14 9afbf4c8 996fb924 27ae41e4 649b934c a495991b 7852b855\<close> and
  \<open>ba7816bf 8f01cfea 414140de 5dae2223 b00361a3 96177a9c b410ff61 f20015ad\<close>.
\<close>

theorem sha256_reference_digests:
  "sha256 data = compress_all h_init (blocks64 (sha256_padded data)) \<and>
   sha256 [] =
     [0xe3b0c442, 0x98fc1c14, 0x9afbf4c8, 0x996fb924,
      0x27ae41e4, 0x649b934c, 0xa495991b, 0x7852b855] \<and>
   sha256 [0x61, 0x62, 0x63] =
     [0xba7816bf, 0x8f01cfea, 0x414140de, 0x5dae2223,
      0xb00361a3, 0x96177a9c, 0xb410ff61, 0xf20015ad]"
proof (intro conjI)
  show "sha256 data = compress_all h_init (blocks64 (sha256_padded data))"
    by (rule sha256_standard)
  show "sha256 [] =
     [0xe3b0c442, 0x98fc1c14, 0x9afbf4c8, 0x996fb924,
      0x27ae41e4, 0x649b934c, 0xa495991b, 0x7852b855]"
    unfolding sha256_def sha256_run_empty fst_conv by (rule compress_empty)
  show "sha256 [0x61, 0x62, 0x63] =
     [0xba7816bf, 0x8f01cfea, 0x414140de, 0x5dae2223,
      0xb00361a3, 0x96177a9c, 0xb410ff61, 0xf20015ad]"
    unfolding sha256_def sha256_run_abc fst_conv by (rule compress_abc)
qed

text \<open>
  C7, as the code has it. The blocks \<open>sha256\<close> compresses are, end to end, the data,
  the byte 0x80, zero bytes until the length is 56 modulo 64 (the least number of them
  that gives this), and the bit length of the data as a 64-bit big-endian integer.
  Every block has 64 bytes and the digest is the compression of these blocks in order.
  Beyond the full blocks of the data there is exactly one more block when the data left
  over and the marker byte take at most 56 bytes (\<open>rem < 56\<close> in the code), and
  exactly two otherwise.
\<close>

theorem sha256_padding_blocks:
  "concat (snd (sha256_run data)) =
     data @ [0x80] @ replicate (pad_zeros (length data)) 0 @ be64 (of_nat (length data) * 8) \<and>
   (length data + 1 + pad_zeros (length data)) mod 64 = 56 \<and>
   (\<forall>z < pad_zeros (length data). (length data + 1 + z) mod 64 \<noteq> 56) \<and>
   (\<forall>b \<in> set (snd (sha256_run data)). length b = 64) \<and>
   sha256 data = compress_all h_init (snd (sha256_run data)) \<and>
   length (snd (sha256_run data)) =
     length data div 64 + (if length data mod 64 + 1 \<le> 56 then 1 else 2)"
proof (intro conjI)
  show "concat (snd (sha256_run data)) =
     data @ [0x80] @ replicate (pad_zeros (length data)) 0 @ be64 (of_nat (length data) * 8)"
    using trace_concat [of data] by (simp add: sha256_padded_def)
  show c: "(length data + 1 + pad_zeros (length data)) mod 64 = 56"
    using pad_zeros_props [of "length data"] by simp
  have p: "pad_zeros (length data) < 64"
    using pad_zeros_props [of "length data"] by simp
  show "\<forall>z < pad_zeros (length data). (length data + 1 + z) mod 64 \<noteq> 56"
    using least_pad [OF p c] by blast
  show "\<forall>b \<in> set (snd (sha256_run data)). length b = 64"
    using trace_lengths by blast
  show "sha256 data = compress_all h_init (snd (sha256_run data))"
    by (simp add: sha256_def sha256_run_eq)
  have "(length data mod 64 + 1 \<le> 56) = (length data mod 64 < 56)"
    by linarith
  then show "length (snd (sha256_run data)) =
     length data div 64 + (if length data mod 64 + 1 \<le> 56 then 1 else 2)"
    by (simp only: trace_count)
qed

theorem sha256_padding_blocks_witness:
  "[0x61, 0x62, 0x63, 0x80] @ replicate 59 0 @ [0x18] \<in> set (snd (sha256_run [0x61, 0x62, 0x63])) \<and>
   length ([0x61, 0x62, 0x63, 0x80] @ replicate 59 (0::byte) @ [0x18]) = 64 \<and>
   (0::nat) < pad_zeros (length [0x61, 0x62, 0x63 :: byte]) \<and>
   (length [0x61, 0x62, 0x63 :: byte] + 1 + 0) mod 64 \<noteq> 56"
proof -
  note t = sha256_padding_blocks [of "[0x61, 0x62, 0x63]"]
  have m: "[0x61, 0x62, 0x63, 0x80] @ replicate 59 0 @ [0x18] \<in> set (snd (sha256_run [0x61, 0x62, 0x63]))"
    by (simp add: sha256_run_abc)
  from t have "\<forall>b \<in> set (snd (sha256_run [0x61, 0x62, 0x63])). length b = 64"
    by (elim conjE)
  with m have l: "length ([0x61, 0x62, 0x63, 0x80] @ replicate 59 (0::byte) @ [0x18]) = 64"
    by (rule bspec [rotated])
  have z: "(0::nat) < pad_zeros (length [0x61, 0x62, 0x63 :: byte])"
    by (simp add: pad_zeros_def)
  from t have "\<forall>z < pad_zeros (length [0x61, 0x62, 0x63 :: byte]).
      (length [0x61, 0x62, 0x63 :: byte] + 1 + z) mod 64 \<noteq> 56"
    by (elim conjE)
  with z have "(length [0x61, 0x62, 0x63 :: byte] + 1 + 0) mod 64 \<noteq> 56"
    by blast
  with m l z show ?thesis by blast
qed

text \<open>
  C7 as stated counts the bytes of the data and the marker in the last partial block
  and asks for two more blocks when they are not fewer than 56. With 55 bytes of data
  they are 56, and the code compresses one block, not two.
\<close>

theorem sha256_padding_counterexample:
  "length (replicate 55 (0::byte)) mod 64 + 1 = 56 \<and>
   length (snd (sha256_run (replicate 55 0))) \<noteq>
     length (replicate 55 (0::byte)) div 64 +
       (if length (replicate 55 (0::byte)) mod 64 + 1 < 56 then 1 else 2)"
  by (simp add: trace_count)

section \<open>Claims about \<open>-app_bin\<close> and about empty inputs\<close>

text \<open>
  C3. For every byte sequence whose length is a multiple of 4, the checksum that the
  \<open>-app_bin\<close> branch computes is \<open>(~sum) + 1\<close> for the sum of the little-endian
  words of the sequence, and the sum and the checksum add up to 0 modulo \<open>2 ^ 32\<close>.
\<close>

theorem app_bin_checksum:
  assumes "length b mod 4 = 0" and "length buffer = 4"
  shows "fst (snd (app_bin b buffer ([], 0))) = NOT (sum_list (le_words b)) + 1 \<and>
         sum_list (le_words b) + fst (snd (app_bin b buffer ([], 0))) = 0"
proof -
  have c: "fst (snd (app_bin b buffer ([], 0))) = - sum_list (le_words b)"
    unfolding app_bin_aligned [OF assms] by simp
  have n: "- sum_list (le_words b) = NOT (sum_list (le_words b)) + 1"
    by (rule minus_eq_not_plus_1)
  have z: "sum_list (le_words b) + - sum_list (le_words b) = 0"
    by simp
  show ?thesis
    unfolding c using n z by (intro conjI)
qed

theorem app_bin_checksum_witness:
  "length [1, 0, 0, 0, 2, 0, 0, 0 :: byte] mod 4 = 0 \<and> length [0, 0, 0, 0 :: byte] = 4 \<and>
   sum_list (le_words [1, 0, 0, 0, 2, 0, 0, 0]) = 3 \<and>
   fst (snd (app_bin [1, 0, 0, 0, 2, 0, 0, 0] [0, 0, 0, 0] ([], 0))) = 0xFFFFFFFD"
proof -
  have a: "length [1, 0, 0, 0, 2, 0, 0, 0 :: byte] mod 4 = 0" by simp
  have b: "length [0, 0, 0, 0 :: byte] = 4" by simp
  have s: "sum_list (le_words [1, 0, 0, 0, 2, 0, 0, 0]) = 3" by (simp add: le32_def)
  from app_bin_checksum [OF a b] have "fst (snd (app_bin [1, 0, 0, 0, 2, 0, 0, 0] [0, 0, 0, 0] ([], 0))) = NOT 3 + 1"
    unfolding s by (rule conjunct1)
  with a b s show ?thesis by simp
qed


lemma unat_size: "L < 2 ^ 32 \<Longrightarrow> unat (of_nat L :: u32) = L"
  by (rule unat_of_nat_u32)

text \<open>
  C4. For every input whose length is a multiple of 4, the \<open>-app_bin\<close> branch leaves
  in the output stream the magic word 0x4788CAFE, the size and the checksum, each as
  four bytes with the least significant first, and then the input bytes as they are;
  the size is the length of the input. A run of \<open>main\<close> on such an input that is not
  empty (and shorter than \<open>2 ^ 32\<close> bytes, so that its size is not taken for 0) returns
  0 without a warning and stores exactly these bytes in the output file. For the input
  \<open>01 00 00 00 02 00 00 00\<close> they are
  \<open>FE CA 88 47, 08 00 00 00, FD FF FF FF, 01 00 00 00, 02 00 00 00\<close>.
\<close>

theorem app_bin_layout:
  "(length b mod 4 = 0 \<and> length buffer = 4 \<longrightarrow>
      app_bin b buffer ([], 0) =
        (of_nat (length b), - sum_list (le_words b),
         ([0xFE, 0xCA, 0x88, 0x47] @ bytes_of_word (of_nat (length b)) @
          bytes_of_word (- sum_list (le_words b)) @ b, 12))) \<and>
   ((length argv = 4 \<or> length argv = 5) \<and> argv ! 1 = ''-app_bin'' \<and> argv ! 2 \<noteq> argv ! 3 \<and>
    files w (argv ! 2) = Some b \<and> writable w (argv ! 3) \<and> length (buffer0 w) = 4 \<and>
    b \<noteq> [] \<and> length b mod 4 = 0 \<and> length b < 2 ^ 32 \<longrightarrow>
      unat (of_nat (length b) :: u32) = length b \<and>
      main argv w =
        \<lparr>status = Exit 0, stdout = [],
         fs = (files w)(argv ! 3 \<mapsto>
           [0xFE, 0xCA, 0x88, 0x47] @ bytes_of_word (of_nat (length b)) @
           bytes_of_word (- sum_list (le_words b)) @ b)\<rparr>) \<and>
   fs (main [''image_gen'', ''-app_bin'', ''in.bin'', ''out.bin'']
         (test_world [0x01, 0x00, 0x00, 0x00, 0x02, 0x00, 0x00, 0x00] sg)) ''out.bin'' =
     Some ([0xFE, 0xCA, 0x88, 0x47] @ [0x08, 0x00, 0x00, 0x00] @ [0xFD, 0xFF, 0xFF, 0xFF] @
           [0x01, 0x00, 0x00, 0x00, 0x02, 0x00, 0x00, 0x00])"
proof (intro conjI impI)
  assume "length b mod 4 = 0 \<and> length buffer = 4"
  then show "app_bin b buffer ([], 0) =
        (of_nat (length b), - sum_list (le_words b),
         ([0xFE, 0xCA, 0x88, 0x47] @ bytes_of_word (of_nat (length b)) @
          bytes_of_word (- sum_list (le_words b)) @ b, 12))"
    by (intro app_bin_aligned) simp_all
next
  assume a: "(length argv = 4 \<or> length argv = 5) \<and> argv ! 1 = ''-app_bin'' \<and> argv ! 2 \<noteq> argv ! 3 \<and>
    files w (argv ! 2) = Some b \<and> writable w (argv ! 3) \<and> length (buffer0 w) = 4 \<and>
    b \<noteq> [] \<and> length b mod 4 = 0 \<and> length b < 2 ^ 32"
  then show u: "unat (of_nat (length b) :: u32) = length b"
    by (intro unat_size) simp
  from a have "unat (of_nat (length b) :: u32) \<noteq> 0"
    unfolding u by simp
  then have nz: "(of_nat (length b) :: u32) \<noteq> 0"
    by (simp only: unat_eq_0 not_False_eq_True)
  from a have al: "length b mod 4 = 0" and lb: "length (buffer0 w) = 4" by simp_all
  from a nz have "main argv w =
     \<lparr>status = Exit 0,
      stdout = (if length b mod 4 \<noteq> 0
                then [''WARNING - image size is not a multiple of 4 bytes!'' @ nl] else []),
      fs = (files w)(argv ! 3 \<mapsto> fst (snd (snd (app_bin b (buffer0 w) ([], 0)))))\<rparr>"
    by (intro main_app_bin) simp_all
  then show "main argv w =
        \<lparr>status = Exit 0, stdout = [],
         fs = (files w)(argv ! 3 \<mapsto>
           [0xFE, 0xCA, 0x88, 0x47] @ bytes_of_word (of_nat (length b)) @
           bytes_of_word (- sum_list (le_words b)) @ b)\<rparr>"
    unfolding app_bin_aligned [OF al lb] using al by simp
next
  let ?b = "[0x01, 0x00, 0x00, 0x00, 0x02, 0x00, 0x00, 0x00] :: byte list"
  let ?argv = "[''image_gen'', ''-app_bin'', ''in.bin'', ''out.bin'']"
  have nz: "(of_nat (length ?b) :: u32) \<noteq> 0" by simp
  have al: "length ?b mod 4 = 0" by simp
  have lb: "length (buffer0 (test_world ?b sg)) = 4" by (simp add: test_world_def)
  have "main ?argv (test_world ?b sg) =
     \<lparr>status = Exit 0,
      stdout = (if length ?b mod 4 \<noteq> 0
                then [''WARNING - image size is not a multiple of 4 bytes!'' @ nl] else []),
      fs = (files (test_world ?b sg))(?argv ! 3 \<mapsto>
             fst (snd (snd (app_bin ?b (buffer0 (test_world ?b sg)) ([], 0)))))\<rparr>"
    by (rule main_app_bin) (simp_all add: test_world_def)
  then show "fs (main ?argv (test_world ?b sg)) ''out.bin'' =
     Some ([0xFE, 0xCA, 0x88, 0x47] @ [0x08, 0x00, 0x00, 0x00] @ [0xFD, 0xFF, 0xFF, 0xFF] @ ?b)"
    unfolding app_bin_aligned [OF al lb]
    by (simp add: bytes_of_word_def le32_def)
qed

theorem app_bin_layout_witness:
  "length [0x01, 0x00, 0x00, 0x00 :: byte] mod 4 = 0 \<and> length [0, 0, 0, 0 :: byte] = 4 \<and>
   app_bin [0x01, 0x00, 0x00, 0x00] [0, 0, 0, 0] ([], 0) =
     (4, 0xFFFFFFFF,
      ([0xFE, 0xCA, 0x88, 0x47, 0x04, 0x00, 0x00, 0x00, 0xFF, 0xFF, 0xFF, 0xFF,
        0x01, 0x00, 0x00, 0x00], 12)) \<and>
   main [''image_gen'', ''-app_bin'', ''in.bin'', ''out.bin'']
     (test_world [0x01, 0x00, 0x00, 0x00] (\<lambda>d. (0, None))) =
     \<lparr>status = Exit 0, stdout = [],
      fs = (files (test_world [0x01, 0x00, 0x00, 0x00] (\<lambda>d. (0, None))))(''out.bin'' \<mapsto>
        [0xFE, 0xCA, 0x88, 0x47, 0x04, 0x00, 0x00, 0x00, 0xFF, 0xFF, 0xFF, 0xFF,
         0x01, 0x00, 0x00, 0x00])\<rparr>"
proof -
  let ?b = "[0x01, 0x00, 0x00, 0x00] :: byte list"
  let ?w = "test_world ?b (\<lambda>d. (0, None))"
  let ?argv = "[''image_gen'', ''-app_bin'', ''in.bin'', ''out.bin'']"
  note t = app_bin_layout [of ?b "[0, 0, 0, 0]" ?argv ?w]
  have h1: "length ?b mod 4 = 0 \<and> length [0, 0, 0, 0 :: byte] = 4" by simp
  have h2: "(length ?argv = 4 \<or> length ?argv = 5) \<and> ?argv ! 1 = ''-app_bin'' \<and>
    ?argv ! 2 \<noteq> ?argv ! 3 \<and> files ?w (?argv ! 2) = Some ?b \<and> writable ?w (?argv ! 3) \<and>
    length (buffer0 ?w) = 4 \<and> ?b \<noteq> [] \<and> length ?b mod 4 = 0 \<and> length ?b < 2 ^ 32"
    by (simp add: test_world_def)
  note r1 = t [THEN conjunct1, THEN mp, OF h1]
  note r2 = t [THEN conjunct2, THEN conjunct1, THEN mp, OF h2, THEN conjunct2]
  have v: "- sum_list (le_words ?b) = 0xFFFFFFFF" "(of_nat (length ?b) :: u32) = 4"
    by (simp_all add: le32_def)
  have e: "bytes_of_word (4 :: u32) = [0x04, 0x00, 0x00, 0x00]"
    "bytes_of_word (0xFFFFFFFF :: u32) = [0xFF, 0xFF, 0xFF, 0xFF]"
    by (simp_all add: bytes_of_word_def)
  show ?thesis
    using h1 r1 r2 unfolding v e by simp
qed


lemma effective_prefix:
  assumes "length buffer = 4"
  shows "take (length rest) (effective buffer rest) = rest"
proof (cases "4 \<le> length rest")
  case True
  show ?thesis unfolding effective_long [OF True] by simp
next
  case False
  show ?thesis
  proof (cases "rest = []")
    case True
    then show ?thesis by simp
  next
    case ne: False
    with False have "length rest < 4" by simp
    from effective_short [OF ne this] show ?thesis by simp
  qed
qed

text \<open>
  C6, as the code has it. A run of \<open>-app_bin\<close> on an input whose length is not a
  multiple of 4 (and below \<open>2 ^ 32\<close>) prints the warning, returns 0, and takes the
  trailing bytes as one more group of four: the payload it writes starts with the input
  bytes and is \<open>4 * ceil(length / 4)\<close> bytes long, the size field is that number, and
  the checksum is the negated sum of the words of the whole payload.
\<close>

theorem app_bin_unaligned:
  assumes "length argv = 4 \<or> length argv = 5" and "argv ! 1 = ''-app_bin''"
    and "argv ! 2 \<noteq> argv ! 3" and "files w (argv ! 2) = Some b"
    and "writable w (argv ! 3)" and "length (buffer0 w) = 4"
    and "length b mod 4 \<noteq> 0" and "length b < 2 ^ 32"
  shows "status (main argv w) = Exit 0 \<and>
         stdout (main argv w) = [''WARNING - image size is not a multiple of 4 bytes!'' @ nl] \<and>
         (\<exists>payload.
            fs (main argv w) (argv ! 3) =
              Some ([0xFE, 0xCA, 0x88, 0x47] @ bytes_of_word (of_nat (length payload)) @
                    bytes_of_word (- sum_list (le_words payload)) @ payload) \<and>
            length payload = 4 * ((length b + 3) div 4) \<and>
            take (length b) payload = b)"
proof -
  from assms(7) have "length b \<noteq> 0" by auto
  then have "unat (of_nat (length b) :: u32) \<noteq> 0"
    unfolding unat_of_nat_u32 [OF assms(8)] .
  then have nz: "(of_nat (length b) :: u32) \<noteq> 0"
    by (simp only: unat_eq_0 not_False_eq_True)
  note m = main_app_bin [OF assms(1,2,4) nz assms(5)]
  note e = app_bin_eq [OF assms(6), of b]
  have "fs (main argv w) (argv ! 3) =
      Some ([0xFE, 0xCA, 0x88, 0x47] @
            bytes_of_word (of_nat (length (effective (buffer0 w) b))) @
            bytes_of_word (- sum_list (le_words (effective (buffer0 w) b))) @
            effective (buffer0 w) b)"
    unfolding m e by (simp add: bytes_of_signature)
  moreover note effective_length4 [OF assms(6), of b] effective_prefix [OF assms(6), of b]
  ultimately have "\<exists>payload.
            fs (main argv w) (argv ! 3) =
              Some ([0xFE, 0xCA, 0x88, 0x47] @ bytes_of_word (of_nat (length payload)) @
                    bytes_of_word (- sum_list (le_words payload)) @ payload) \<and>
            length payload = 4 * ((length b + 3) div 4) \<and>
            take (length b) payload = b"
    by blast
  moreover have "status (main argv w) = Exit 0"
    unfolding m by simp
  moreover have "stdout (main argv w) = [''WARNING - image size is not a multiple of 4 bytes!'' @ nl]"
    unfolding m using assms(7) by simp
  ultimately show ?thesis by blast
qed

theorem app_bin_unaligned_witness:
  "(length [''image_gen'', ''-app_bin'', ''in.bin'', ''out.bin''] = 4 \<or>
    length [''image_gen'', ''-app_bin'', ''in.bin'', ''out.bin''] = 5) \<and>
   [''image_gen'', ''-app_bin'', ''in.bin'', ''out.bin''] ! 1 = ''-app_bin'' \<and>
   [''image_gen'', ''-app_bin'', ''in.bin'', ''out.bin''] ! 2 \<noteq>
     [''image_gen'', ''-app_bin'', ''in.bin'', ''out.bin''] ! 3 \<and>
   files (test_world [1, 0, 0, 0, 2] (\<lambda>d. (0, None)))
     ([''image_gen'', ''-app_bin'', ''in.bin'', ''out.bin''] ! 2) = Some [1, 0, 0, 0, 2] \<and>
   writable (test_world [1, 0, 0, 0, 2] (\<lambda>d. (0, None)))
     ([''image_gen'', ''-app_bin'', ''in.bin'', ''out.bin''] ! 3) \<and>
   length (buffer0 (test_world [1, 0, 0, 0, 2] (\<lambda>d. (0, None)))) = 4 \<and>
   length [1, 0, 0, 0, 2 :: byte] mod 4 \<noteq> 0 \<and> length [1, 0, 0, 0, 2 :: byte] < 2 ^ 32 \<and>
   status (main [''image_gen'', ''-app_bin'', ''in.bin'', ''out.bin'']
            (test_world [1, 0, 0, 0, 2] (\<lambda>d. (0, None)))) = Exit 0 \<and>
   stdout (main [''image_gen'', ''-app_bin'', ''in.bin'', ''out.bin'']
            (test_world [1, 0, 0, 0, 2] (\<lambda>d. (0, None)))) =
     [''WARNING - image size is not a multiple of 4 bytes!'' @ nl]"
proof -
  let ?b = "[1, 0, 0, 0, 2] :: byte list"
  let ?w = "test_world ?b (\<lambda>d. (0, None))"
  let ?argv = "[''image_gen'', ''-app_bin'', ''in.bin'', ''out.bin'']"
  have h: "length ?argv = 4 \<or> length ?argv = 5" "?argv ! 1 = ''-app_bin''"
    "?argv ! 2 \<noteq> ?argv ! 3" "files ?w (?argv ! 2) = Some ?b" "writable ?w (?argv ! 3)"
    "length (buffer0 ?w) = 4" "length ?b mod 4 \<noteq> 0" "length ?b < 2 ^ 32"
    by (simp_all add: test_world_def)
  from app_bin_unaligned [OF h] h show ?thesis by blast
qed

text \<open>
  C6 as stated has the trailing bytes dropped. For the five bytes \<open>01 00 00 00 02\<close>
  the size field would be 4 and the checksum the negation of 1; the code writes the
  size 8, the checksum \<open>FD FF FF FF\<close> (the negation of 1 + 2) and eight bytes of
  payload.
\<close>

theorem app_bin_unaligned_counterexample:
  "length [1, 0, 0, 0, 2 :: byte] mod 4 \<noteq> 0 \<and>
   fs (main [''image_gen'', ''-app_bin'', ''in.bin'', ''out.bin'']
         (test_world [1, 0, 0, 0, 2] (\<lambda>d. (0, None)))) ''out.bin'' =
     Some ([0xFE, 0xCA, 0x88, 0x47] @ [0x08, 0x00, 0x00, 0x00] @ [0xFD, 0xFF, 0xFF, 0xFF] @
           [1, 0, 0, 0, 2, 0, 0, 0]) \<and>
   [0x08, 0x00, 0x00, 0x00] \<noteq> bytes_of_word (of_nat (4 * (length [1, 0, 0, 0, 2 :: byte] div 4))) \<and>
   [0xFD, 0xFF, 0xFF, 0xFF] \<noteq> bytes_of_word (- sum_list (le_words [1, 0, 0, 0, 2]))"
proof -
  let ?b = "[1, 0, 0, 0, 2] :: byte list"
  let ?w = "test_world ?b (\<lambda>d. (0, None))"
  let ?argv = "[''image_gen'', ''-app_bin'', ''in.bin'', ''out.bin'']"
  have nz: "(of_nat (length ?b) :: u32) \<noteq> 0" by simp
  have lb: "length (buffer0 ?w) = 4" by (simp add: test_world_def)
  have m: "main ?argv ?w =
     \<lparr>status = Exit 0,
      stdout = (if length ?b mod 4 \<noteq> 0
                then [''WARNING - image size is not a multiple of 4 bytes!'' @ nl] else []),
      fs = (files ?w)(?argv ! 3 \<mapsto> fst (snd (snd (app_bin ?b (buffer0 ?w) ([], 0)))))\<rparr>"
    by (rule main_app_bin) (simp_all add: test_world_def)
  have lg: "4 \<le> length ?b" by simp
  have eff: "effective (buffer0 ?w) ?b = [1, 0, 0, 0, 2, 0, 0, 0]"
    unfolding effective_long [OF lg] by simp
  have v: "- sum_list (le_words [1, 0, 0, 0, 2, 0, 0, 0]) = (0xFFFFFFFD :: u32)"
    "(of_nat (length [1, 0, 0, 0, 2, 0, 0, 0 :: byte]) :: u32) = 8"
    "- sum_list (le_words ?b) = (0xFFFFFFFF :: u32)"
    "(of_nat (4 * (length ?b div 4)) :: u32) = 4"
    by (simp_all add: le32_def)
  have e: "bytes_of_word (8 :: u32) = [0x08, 0x00, 0x00, 0x00]"
    "bytes_of_word (0xFFFFFFFD :: u32) = [0xFD, 0xFF, 0xFF, 0xFF]"
    "bytes_of_word (0xFFFFFFFF :: u32) = [0xFF, 0xFF, 0xFF, 0xFF]"
    "bytes_of_word (4 :: u32) = [0x04, 0x00, 0x00, 0x00]"
    by (simp_all add: bytes_of_word_def)
  show ?thesis
    unfolding m app_bin_eq [OF lb] eff v e by (simp add: bytes_of_signature)
qed

text \<open>
  C9. For every input of more than four bytes whose length \<open>L\<close> is not a multiple of
  4, the last \<open>fread\<close> of the \<open>-app_bin\<close> loop gets \<open>L mod 4\<close> bytes and leaves the
  bytes of the group before in the other places of the buffer; the word of that buffer
  is added to the checksum, its four bytes are written, and the size is
  \<open>4 * (L div 4 + 1) = 4 * ceil(L / 4)\<close>.
\<close>

theorem app_bin_partial_group:
  assumes "4 < length b" and "length b mod 4 \<noteq> 0" and "length buffer = 4"
  shows "let q = length b div 4; m = length b mod 4;
             prev = take 4 (drop (4 * (q - 1)) b);
             final = drop (4 * q) b @ drop m prev
         in fread 4 prev (drop (4 * q) b) = (m, final, []) \<and>
            app_bin b buffer ([], 0) =
              (of_nat (4 * (q + 1)),
               - (sum_list (le_words (take (4 * q) b)) + word_of_buffer final),
               ([0xFE, 0xCA, 0x88, 0x47] @ bytes_of_word (of_nat (4 * (q + 1))) @
                bytes_of_word (- (sum_list (le_words (take (4 * q) b)) + word_of_buffer final)) @
                take (4 * q) b @ final, 12)) \<and>
            4 * (q + 1) = 4 * ((length b + 3) div 4)"
proof -
  define q where "q = length b div 4"
  define m where "m = length b mod 4"
  define prev where "prev = take 4 (drop (4 * (q - 1)) b)"
  define final where "final = drop (4 * q) b @ drop m prev"
  have L: "length b = 4 * q + m" by (simp add: q_def m_def)
  have m: "0 < m" "m < 4" using assms(2) by (simp_all add: m_def)
  have q: "0 < q" using assms(1) by (simp add: q_def div_greater_zero_iff)
  have lt: "length (drop (4 * q) b) = m" using L by simp
  have lp: "length prev = 4"
    unfolding prev_def using L q m by simp
  have lf: "length final = 4"
    unfolding final_def using lt lp m by simp
  have fr: "fread 4 prev (drop (4 * q) b) = (m, final, [])"
    using lt m by (simp add: fread_def Let_def final_def min_def)
  have ge: "4 \<le> length b" using assms(1) by simp
  have eff: "effective buffer b = take (4 * q) b @ final"
    unfolding effective_long [OF ge] final_def prev_def q_def m_def using assms(2) by simp
  have al: "length (take (4 * q) b) mod 4 = 0" using L by simp
  have lw: "le_words (take (4 * q) b @ final) = le_words (take (4 * q) b) @ [word_of_buffer final]"
    unfolding le_words_append [OF al] using le_words_group [OF lf, of "[]"] by simp
  have len: "length (take (4 * q) b @ final) = 4 * (q + 1)"
    using L lf by simp
  have ceil: "4 * (q + 1) = 4 * ((length b + 3) div 4)"
  proof -
    have "length b + 3 = (m + 3) + q * 4" using L by simp
    then have "(length b + 3) div 4 = (m + 3) div 4 + q" by (simp only: div_mult_self3)
    moreover have "(m + 3) div 4 = 1" using m by presburger
    ultimately show ?thesis by simp
  qed
  have "app_bin b buffer ([], 0) =
              (of_nat (4 * (q + 1)),
               - (sum_list (le_words (take (4 * q) b)) + word_of_buffer final),
               ([0xFE, 0xCA, 0x88, 0x47] @ bytes_of_word (of_nat (4 * (q + 1))) @
                bytes_of_word (- (sum_list (le_words (take (4 * q) b)) + word_of_buffer final)) @
                take (4 * q) b @ final, 12))"
    unfolding app_bin_eq [OF assms(3)] eff lw len bytes_of_signature by simp
  with fr ceil show ?thesis
    unfolding Let_def q_def [symmetric] m_def [symmetric] prev_def [symmetric] final_def [symmetric]
    by blast
qed

theorem app_bin_partial_group_witness:
  "4 < length [1, 0, 0, 0, 2 :: byte] \<and> length [1, 0, 0, 0, 2 :: byte] mod 4 \<noteq> 0 \<and>
   length [9, 9, 9, 9 :: byte] = 4 \<and>
   fread 4 [1, 0, 0, 0] [2] = (1, [2, 0, 0, 0], []) \<and>
   app_bin [1, 0, 0, 0, 2] [9, 9, 9, 9] ([], 0) =
     (8, 0xFFFFFFFD,
      ([0xFE, 0xCA, 0x88, 0x47, 0x08, 0x00, 0x00, 0x00, 0xFD, 0xFF, 0xFF, 0xFF,
        1, 0, 0, 0, 2, 0, 0, 0], 12))"
proof -
  let ?b = "[1, 0, 0, 0, 2] :: byte list"
  have h: "4 < length ?b" "length ?b mod 4 \<noteq> 0" "length [9, 9, 9, 9 :: byte] = 4"
    by simp_all
  have v: "- le32 1 0 0 0 - word_of_buffer [2, 0, 0, 0] = (0xFFFFFFFD :: u32)"
    by (simp add: le32_def word_of_buffer_arith)
  have e: "bytes_of_word (8 :: u32) = [0x08, 0x00, 0x00, 0x00]"
    "bytes_of_word (0xFFFFFFFD :: u32) = [0xFD, 0xFF, 0xFF, 0xFF]"
    by (simp_all add: bytes_of_word_def)
  from app_bin_partial_group [OF h] h show ?thesis
    by (simp add: Let_def v e)
qed

text \<open>
  C10. A run whose input file opens and is empty returns -3 and leaves every file as it
  was: the output is not opened, nothing is hashed or signed, no transient file appears.
\<close>

theorem main_empty_input:
  assumes "length argv = 4 \<or> length argv = 5"
    and "parse_operation (argv ! 1) = Some operation"
    and "files w (argv ! 2) = Some []"
  shows "main argv w =
     \<lparr>status = Exit (- 3), stdout = [''Input file is empty ('' @ argv ! 2 @ '')!'' @ nl],
      fs = files w\<rparr>"
  unfolding main_def assms(2) assms(3) using assms(1) by (auto simp: Let_def)

theorem main_empty_input_witness:
  "(length [''image_gen'', ''-bld_vhd'', ''in.bin'', ''out.vhd''] = 4 \<or>
    length [''image_gen'', ''-bld_vhd'', ''in.bin'', ''out.vhd''] = 5) \<and>
   parse_operation ([''image_gen'', ''-bld_vhd'', ''in.bin'', ''out.vhd''] ! 1) = Some OP_BLD_VHD \<and>
   files (test_world [] (\<lambda>d. (0, None))) ([''image_gen'', ''-bld_vhd'', ''in.bin'', ''out.vhd''] ! 2) =
     Some [] \<and>
   main [''image_gen'', ''-bld_vhd'', ''in.bin'', ''out.vhd''] (test_world [] (\<lambda>d. (0, None))) =
     \<lparr>status = Exit (- 3), stdout = [''Input file is empty (in.bin)!'' @ nl],
      fs = files (test_world [] (\<lambda>d. (0, None)))\<rparr>"
proof -
  let ?w = "test_world [] (\<lambda>d. (0, None))"
  let ?argv = "[''image_gen'', ''-bld_vhd'', ''in.bin'', ''out.vhd'']"
  have h: "length ?argv = 4 \<or> length ?argv = 5"
    "parse_operation (?argv ! 1) = Some OP_BLD_VHD" "files ?w (?argv ! 2) = Some []"
    by (simp_all add: test_world_def parse_operation_def)
  from main_empty_input [OF h] h show ?thesis by simp
qed

section \<open>Claims about \<open>-bld_vhd\<close>\<close>

text \<open>
  C5, as the code has it. A run of \<open>-bld_vhd\<close> whose signer leaves a signature file
  of \<open>n\<close> bytes (whatever its exit status) reads at most the first 256 of them, writes
  after the opening of the record constant one line for each 32-bit little-endian word
  of these bytes (a last group of fewer than four bytes filled with zero bytes), then
  one line with the length of the input in 32-bit words, and closes the package. The
  record has \<open>ceil(min n 256 / 4) + 1\<close> words: 65 for a signature of 256 bytes.
\<close>

theorem secure_boot_record_words:
  assumes "length argv = 4 \<or> length argv = 5" and "argv ! 1 = ''-bld_vhd''"
    and "argv ! 2 \<noteq> argv ! 3" and "argv ! 3 \<noteq> ''sha256.bin''" and "argv ! 3 \<noteq> ''sha256.sig''"
    and "files w (argv ! 2) = Some b" and "b \<noteq> []" and "length b < 2 ^ 32"
    and "writable w (argv ! 3)" and "malloc_ok w" and "writable w ''sha256.bin''"
    and "signer w (digest_bytes (sha256 b)) = (ret, Some sig_bytes)"
  shows "(\<exists>pre. fs (main argv w) (argv ! 3) =
           Some (pre @ bytes_of_string
             (''constant bootloader_init_secure_boot_info_c : mem32_t := ('' @ nl @
              record_text (padded_words (take 256 sig_bytes)) (of_nat (length b div 4)) @
              '');'' @ nl @ nl @ ''end neorv32_bootloader_image;'' @ nl))) \<and>
         length (padded_words (take 256 sig_bytes)) = (min (length sig_bytes) 256 + 3) div 4 \<and>
         count_lines (bytes_of_string
            (record_text (padded_words (take 256 sig_bytes)) (of_nat (length b div 4)))) =
           (min (length sig_bytes) 256 + 3) div 4 + 1 \<and>
         (length sig_bytes = 256 \<longrightarrow>
            count_lines (bytes_of_string
              (record_text (padded_words (take 256 sig_bytes)) (of_nat (length b div 4)))) = 65)"
proof -
  note m = main_bld_vhd [OF assms(1,2,6,7,8,9)]
  note s = bld_vhd_signed(2) [OF assms(7,8,10,11,12)]
  have l: "length (padded_words (take 256 sig_bytes)) = (min (length sig_bytes) 256 + 3) div 4"
    by (simp add: length_padded_words)
  have c: "count_lines (bytes_of_string
            (record_text (padded_words (take 256 sig_bytes)) (of_nat (length b div 4)))) =
           (min (length sig_bytes) 256 + 3) div 4 + 1"
    unfolding count_lines_record l ..
  have "length sig_bytes = 256 \<longrightarrow>
            count_lines (bytes_of_string
              (record_text (padded_words (take 256 sig_bytes)) (of_nat (length b div 4)))) = 65"
    unfolding c by simp
  with s l c show ?thesis
    unfolding m by blast
qed

theorem secure_boot_record_words_witness:
  "(length [''image_gen'', ''-bld_vhd'', ''in.bin'', ''out.vhd''] = 4 \<or>
    length [''image_gen'', ''-bld_vhd'', ''in.bin'', ''out.vhd''] = 5) \<and>
   [''image_gen'', ''-bld_vhd'', ''in.bin'', ''out.vhd''] ! 1 = ''-bld_vhd'' \<and>
   [''image_gen'', ''-bld_vhd'', ''in.bin'', ''out.vhd''] ! 2 \<noteq>
     [''image_gen'', ''-bld_vhd'', ''in.bin'', ''out.vhd''] ! 3 \<and>
   [''image_gen'', ''-bld_vhd'', ''in.bin'', ''out.vhd''] ! 3 \<noteq> ''sha256.bin'' \<and>
   [''image_gen'', ''-bld_vhd'', ''in.bin'', ''out.vhd''] ! 3 \<noteq> ''sha256.sig'' \<and>
   files (test_world [1, 0, 0, 0] (\<lambda>d. (0, Some (replicate 256 7))))
     ([''image_gen'', ''-bld_vhd'', ''in.bin'', ''out.vhd''] ! 2) = Some [1, 0, 0, 0] \<and>
   [1, 0, 0, 0 :: byte] \<noteq> [] \<and> length [1, 0, 0, 0 :: byte] < 2 ^ 32 \<and>
   writable (test_world [1, 0, 0, 0] (\<lambda>d. (0, Some (replicate 256 7))))
     ([''image_gen'', ''-bld_vhd'', ''in.bin'', ''out.vhd''] ! 3) \<and>
   malloc_ok (test_world [1, 0, 0, 0] (\<lambda>d. (0, Some (replicate 256 7)))) \<and>
   writable (test_world [1, 0, 0, 0] (\<lambda>d. (0, Some (replicate 256 7)))) ''sha256.bin'' \<and>
   signer (test_world [1, 0, 0, 0] (\<lambda>d. (0, Some (replicate 256 7))))
     (digest_bytes (sha256 [1, 0, 0, 0])) = (0, Some (replicate 256 7)) \<and>
   length (replicate 256 (7 :: byte)) = 256 \<and>
   count_lines (bytes_of_string
     (record_text (padded_words (take 256 (replicate 256 7))) (of_nat (length [1, 0, 0, 0 :: byte] div 4)))) = 65"
proof -
  let ?b = "[1, 0, 0, 0] :: byte list"
  let ?w = "test_world ?b (\<lambda>d. (0, Some (replicate 256 7)))"
  let ?argv = "[''image_gen'', ''-bld_vhd'', ''in.bin'', ''out.vhd'']"
  have h: "length ?argv = 4 \<or> length ?argv = 5" "?argv ! 1 = ''-bld_vhd''"
    "?argv ! 2 \<noteq> ?argv ! 3" "?argv ! 3 \<noteq> ''sha256.bin''" "?argv ! 3 \<noteq> ''sha256.sig''"
    "files ?w (?argv ! 2) = Some ?b" "?b \<noteq> []" "length ?b < 2 ^ 32"
    "writable ?w (?argv ! 3)" "malloc_ok ?w" "writable ?w ''sha256.bin''"
    "signer ?w (digest_bytes (sha256 ?b)) = (0, Some (replicate 256 7))"
    by (simp_all add: test_world_def)
  have n: "length (replicate 256 (7 :: byte)) = 256" by simp
  from secure_boot_record_words [OF h]
  have "length (replicate 256 (7 :: byte)) = 256 \<longrightarrow>
     count_lines (bytes_of_string
       (record_text (padded_words (take 256 (replicate 256 7))) (of_nat (length ?b div 4)))) = 65"
    by (elim conjE)
  with n have "count_lines (bytes_of_string
       (record_text (padded_words (take 256 (replicate 256 7))) (of_nat (length ?b div 4)))) = 65"
    by (rule rev_mp)
  with h n show ?thesis by blast
qed

text \<open>
  C5 as stated gives 9 words for a signature of 256 bytes and \<open>n / 4 + 1\<close> words for
  one of \<open>n\<close> bytes. The code writes 65 lines for 256 bytes, 3 lines (not 2) for 5
  bytes, and reads no more than 256 bytes of a longer signature file.
\<close>

theorem secure_boot_record_counterexample:
  "count_lines (fst (secure_boot_record (replicate 256 7) 256 1 ([], 0))) = 65 \<and>
   (65 :: nat) \<noteq> 9 \<and>
   count_lines (fst (secure_boot_record ([1, 2, 3, 4, 5] @ replicate 251 0) 5 1 ([], 0))) = 3 \<and>
   (3 :: nat) \<noteq> 5 div 4 + 1 \<and>
   fst (fread 256 (replicate 256 0) (replicate 260 7)) = 256 \<and>
   (256 :: nat) div 4 + 1 \<noteq> 260 div 4 + 1"
proof -
  have a: "256 \<le> length (replicate 256 (7 :: byte))" by simp
  have b: "5 \<le> length ([1, 2, 3, 4, 5] @ replicate 251 (0 :: byte))" by simp
  have e: "([], 0) = ([] :: byte list, length ([] :: byte list))" by simp
  show ?thesis
    unfolding e secure_boot_record_eq [OF a] secure_boot_record_eq [OF b] fst_conv append_Nil
      count_lines_record length_padded_words
    by (simp add: fread_def)
qed

text \<open>
  C1, what the code does where the claim asks for an abort. When the signer exits
  with a status other than 0, or leaves fewer than 256 bytes of signature, and a
  signature file can be opened afterwards (a stale one, an empty or a short one), the
  run goes on (after printing \<open>OpenSSL signing failed!\<close> for the exit status): it
  returns 0 and the output holds the record made from whatever bytes the file has.
\<close>

theorem signer_failure_not_fatal:
  assumes "length argv = 4 \<or> length argv = 5" and "argv ! 1 = ''-bld_vhd''"
    and "argv ! 2 \<noteq> argv ! 3" and "argv ! 3 \<noteq> ''sha256.bin''" and "argv ! 3 \<noteq> ''sha256.sig''"
    and "files w (argv ! 2) = Some b" and "b \<noteq> []" and "length b < 2 ^ 32"
    and "writable w (argv ! 3)" and "malloc_ok w" and "writable w ''sha256.bin''"
    and "signer w (digest_bytes (sha256 b)) = (ret, Some sig_bytes)"
    and "ret \<noteq> 0 \<or> length sig_bytes < 256"
  shows "status (main argv w) = Exit 0 \<and>
         (\<exists>pre. fs (main argv w) (argv ! 3) =
           Some (pre @ bytes_of_string
             (''constant bootloader_init_secure_boot_info_c : mem32_t := ('' @ nl @
              record_text (padded_words (take 256 sig_bytes)) (of_nat (length b div 4)) @
              '');'' @ nl @ nl @ ''end neorv32_bootloader_image;'' @ nl)))"
  unfolding main_bld_vhd [OF assms(1,2,6,7,8,9)]
  using bld_vhd_signed(1,2) [OF assms(7,8,10,11,12)] by blast

theorem signer_failure_not_fatal_witness:
  "(length [''image_gen'', ''-bld_vhd'', ''in.bin'', ''out.vhd''] = 4 \<or>
    length [''image_gen'', ''-bld_vhd'', ''in.bin'', ''out.vhd''] = 5) \<and>
   [''image_gen'', ''-bld_vhd'', ''in.bin'', ''out.vhd''] ! 1 = ''-bld_vhd'' \<and>
   [''image_gen'', ''-bld_vhd'', ''in.bin'', ''out.vhd''] ! 2 \<noteq>
     [''image_gen'', ''-bld_vhd'', ''in.bin'', ''out.vhd''] ! 3 \<and>
   [''image_gen'', ''-bld_vhd'', ''in.bin'', ''out.vhd''] ! 3 \<noteq> ''sha256.bin'' \<and>
   [''image_gen'', ''-bld_vhd'', ''in.bin'', ''out.vhd''] ! 3 \<noteq> ''sha256.sig'' \<and>
   files (test_world [1, 0, 0, 0] (\<lambda>d. (1, Some [])))
     ([''image_gen'', ''-bld_vhd'', ''in.bin'', ''out.vhd''] ! 2) = Some [1, 0, 0, 0] \<and>
   [1, 0, 0, 0 :: byte] \<noteq> [] \<and> length [1, 0, 0, 0 :: byte] < 2 ^ 32 \<and>
   writable (test_world [1, 0, 0, 0] (\<lambda>d. (1, Some [])))
     ([''image_gen'', ''-bld_vhd'', ''in.bin'', ''out.vhd''] ! 3) \<and>
   malloc_ok (test_world [1, 0, 0, 0] (\<lambda>d. (1, Some []))) \<and>
   writable (test_world [1, 0, 0, 0] (\<lambda>d. (1, Some []))) ''sha256.bin'' \<and>
   signer (test_world [1, 0, 0, 0] (\<lambda>d. (1, Some [])))
     (digest_bytes (sha256 [1, 0, 0, 0])) = (1, Some []) \<and>
   (1 :: int) \<noteq> 0 \<and> length ([] :: byte list) < 256 \<and>
   status (main [''image_gen'', ''-bld_vhd'', ''in.bin'', ''out.vhd'']
             (test_world [1, 0, 0, 0] (\<lambda>d. (1, Some [])))) = Exit 0"
proof -
  let ?b = "[1, 0, 0, 0] :: byte list"
  let ?w = "test_world ?b (\<lambda>d. (1, Some []))"
  let ?argv = "[''image_gen'', ''-bld_vhd'', ''in.bin'', ''out.vhd'']"
  have h: "length ?argv = 4 \<or> length ?argv = 5" "?argv ! 1 = ''-bld_vhd''"
    "?argv ! 2 \<noteq> ?argv ! 3" "?argv ! 3 \<noteq> ''sha256.bin''" "?argv ! 3 \<noteq> ''sha256.sig''"
    "files ?w (?argv ! 2) = Some ?b" "?b \<noteq> []" "length ?b < 2 ^ 32"
    "writable ?w (?argv ! 3)" "malloc_ok ?w" "writable ?w ''sha256.bin''"
    "signer ?w (digest_bytes (sha256 ?b)) = (1, Some [])"
    "(1 :: int) \<noteq> 0 \<or> length ([] :: byte list) < 256"
    by (simp_all add: test_world_def)
  have f: "(1 :: int) \<noteq> 0" "length ([] :: byte list) < 256"
    by simp_all
  from signer_failure_not_fatal [OF h] h(1-12) f show ?thesis by blast
qed

text \<open>
  C8, what the code does where the claim asks for the files to be removed. When no
  signature file can be opened after the signer has run, the code prints
  \<open>Failed to open signature file!\<close> and goes on to \<open>fread\<close> from the null stream:
  the run ends there, before the two \<open>unlink\<close> calls, and the digest file stays.
\<close>

theorem digest_file_left_behind:
  assumes "length argv = 4 \<or> length argv = 5" and "argv ! 1 = ''-bld_vhd''"
    and "files w (argv ! 2) = Some b" and "b \<noteq> []" and "length b < 2 ^ 32"
    and "writable w (argv ! 3)" and "malloc_ok w" and "writable w ''sha256.bin''"
    and "signer w (digest_bytes (sha256 b)) = (ret, None)"
  shows "status (main argv w) = Crash \<and>
         fs (main argv w) ''sha256.bin'' = Some (digest_bytes (sha256 b))"
  unfolding main_bld_vhd [OF assms(1,2,3,4,5,6)]
  using bld_vhd_crash [OF assms(4,5,7,8,9)] by blast

theorem digest_file_left_behind_witness:
  "(length [''image_gen'', ''-bld_vhd'', ''in.bin'', ''out.vhd''] = 4 \<or>
    length [''image_gen'', ''-bld_vhd'', ''in.bin'', ''out.vhd''] = 5) \<and>
   [''image_gen'', ''-bld_vhd'', ''in.bin'', ''out.vhd''] ! 1 = ''-bld_vhd'' \<and>
   files (test_world [1, 0, 0, 0] (\<lambda>d. (1, None)))
     ([''image_gen'', ''-bld_vhd'', ''in.bin'', ''out.vhd''] ! 2) = Some [1, 0, 0, 0] \<and>
   [1, 0, 0, 0 :: byte] \<noteq> [] \<and> length [1, 0, 0, 0 :: byte] < 2 ^ 32 \<and>
   writable (test_world [1, 0, 0, 0] (\<lambda>d. (1, None)))
     ([''image_gen'', ''-bld_vhd'', ''in.bin'', ''out.vhd''] ! 3) \<and>
   malloc_ok (test_world [1, 0, 0, 0] (\<lambda>d. (1, None))) \<and>
   writable (test_world [1, 0, 0, 0] (\<lambda>d. (1, None))) ''sha256.bin'' \<and>
   signer (test_world [1, 0, 0, 0] (\<lambda>d. (1, None)))
     (digest_bytes (sha256 [1, 0, 0, 0])) = (1, None) \<and>
   files (test_world [1, 0, 0, 0] (\<lambda>d. (1, None))) ''sha256.bin'' = None \<and>
   status (main [''image_gen'', ''-bld_vhd'', ''in.bin'', ''out.vhd'']
             (test_world [1, 0, 0, 0] (\<lambda>d. (1, None)))) = Crash \<and>
   fs (main [''image_gen'', ''-bld_vhd'', ''in.bin'', ''out.vhd'']
         (test_world [1, 0, 0, 0] (\<lambda>d. (1, None)))) ''sha256.bin'' \<noteq> None"
proof -
  let ?b = "[1, 0, 0, 0] :: byte list"
  let ?w = "test_world ?b (\<lambda>d. (1, None))"
  let ?argv = "[''image_gen'', ''-bld_vhd'', ''in.bin'', ''out.vhd'']"
  have h: "length ?argv = 4 \<or> length ?argv = 5" "?argv ! 1 = ''-bld_vhd''"
    "files ?w (?argv ! 2) = Some ?b" "?b \<noteq> []" "length ?b < 2 ^ 32"
    "writable ?w (?argv ! 3)" "malloc_ok ?w" "writable ?w ''sha256.bin''"
    "signer ?w (digest_bytes (sha256 ?b)) = (1, None)"
    by (simp_all add: test_world_def)
  have n: "files ?w ''sha256.bin'' = None" by (simp add: test_world_def)
  from digest_file_left_behind [OF h] h n show ?thesis by auto
qed

end
